theory Spec2Isabelle
  imports Main
begin

section \<open>The string operations of the host language that the filter uses\<close>

text \<open>
  A string of the program is a \<^typ>\<open>string\<close>: one \<^typ>\<open>char\<close> per code unit.
  The library methods below are the ones \<^verbatim>\<open>filter-cat.ts\<close> calls; each follows
  the ECMAScript definition of the method for the arguments the program passes.
\<close>

text \<open>
  \<^verbatim>\<open>StringIndexOf(s, pat, 0)\<close>: the text before and after the leftmost occurrence of
  \<open>pat\<close> in \<open>s\<close>, or \<open>None\<close> when \<open>pat\<close> does not occur.
\<close>

fun indexOf :: "string \<Rightarrow> string \<Rightarrow> (string \<times> string) option" where
  "indexOf pat [] = (if pat = [] then Some ([], []) else None)"
| "indexOf pat (c # s) =
     (if take (length pat) (c # s) = pat then Some ([], drop (length pat) (c # s))
      else (case indexOf pat s of
              None \<Rightarrow> None
            | Some (before, after) \<Rightarrow> Some (c # before, after)))"

text \<open>
  \<^verbatim>\<open>GetSubstitution\<close> for a string pattern (no captures): in the replacement text
  \<^verbatim>\<open>$$\<close> stands for a dollar sign, \<^verbatim>\<open>$&\<close> for the matched text, \<^verbatim>\<open>$`\<close> for the
  text before the match and \<^verbatim>\<open>$'\<close> for the text after it; every other character,
  a dollar sign followed by anything else included, stands for itself.
\<close>

fun getSubstitution :: "string \<Rightarrow> string \<Rightarrow> string \<Rightarrow> string \<Rightarrow> string" where
  "getSubstitution matched before after [] = []"
| "getSubstitution matched before after [c] = [c]"
| "getSubstitution matched before after (c # d # r) =
     (if c = CHR ''$'' \<and> d = CHR ''$'' then CHR ''$'' # getSubstitution matched before after r
      else if c = CHR ''$'' \<and> d = CHR ''&'' then matched @ getSubstitution matched before after r
      else if c = CHR ''$'' \<and> d = CHR 0x60 then before @ getSubstitution matched before after r
      else if c = CHR ''$'' \<and> d = CHR 0x27 then after @ getSubstitution matched before after r
      else c # getSubstitution matched before after (d # r))"

text \<open>
  \<^verbatim>\<open>s.replace(pat, repl)\<close> with a string pattern: only the leftmost occurrence is
  replaced, by the substitution of \<open>repl\<close>.
\<close>

definition replace :: "string \<Rightarrow> string \<Rightarrow> string \<Rightarrow> string" where
  "replace s pat repl =
     (case indexOf pat s of
        None \<Rightarrow> s
      | Some (before, after) \<Rightarrow> before @ getSubstitution pat before after repl @ after)"

text \<open>\<^verbatim>\<open>xs.join(sep)\<close>.\<close>

fun join :: "string \<Rightarrow> string list \<Rightarrow> string" where
  "join sep [] = []"
| "join sep [x] = x"
| "join sep (x # y # xs) = x @ sep @ join sep (y # xs)"

text \<open>
  \<^verbatim>\<open>s.split(c)\<close> for a separator of one character: the pieces between the
  separators, so that the empty string splits into one empty piece.
\<close>

fun split :: "char \<Rightarrow> string \<Rightarrow> string list" where
  "split sep [] = [[]]"
| "split sep (c # s) =
     (if c = sep then [] # split sep s
      else (case split sep s of
              [] \<Rightarrow> [[c]]
            | p # ps \<Rightarrow> (c # p) # ps))"

text \<open>
  \<^verbatim>\<open>s.trim()\<close>: white space and line terminators are removed at both ends. Of the
  characters ECMAScript counts, those below 256 are tab, line feed, vertical tab, form
  feed, carriage return, space and the no-break space.
\<close>

definition isWhiteSpace :: "char \<Rightarrow> bool" where
  "isWhiteSpace c \<longleftrightarrow> c \<in> set [CHR 0x09, CHR 0x0A, CHR 0x0B, CHR 0x0C, CHR 0x0D, CHR 0x20, CHR 0xA0]"

definition trim :: "string \<Rightarrow> string" where
  "trim s = rev (dropWhile isWhiteSpace (rev (dropWhile isWhiteSpace s)))"

section \<open>The criterion model\<close>

text \<open>The combination mode of a key: the strings \<^verbatim>\<open>'or'\<close> and \<^verbatim>\<open>'and'\<close>.\<close>

datatype relation = Or | And

text \<open>
  \<^verbatim>\<open>KeyToVals = Map<string, ['or'|'and', string[], string, string]>\<close>: a map that
  is iterated in insertion order, so an association list from the key to the tuple
  (mode, values, class pattern, query variable).
\<close>

type_synonym criterion = "relation \<times> string list \<times> string \<times> string"
type_synonym keyToVals = "(string \<times> criterion) list"

text \<open>\<^verbatim>\<open>Map.prototype.set\<close>: an existing key keeps its place, a new key goes last.\<close>

fun mapSet :: "'k \<Rightarrow> 'v \<Rightarrow> ('k \<times> 'v) list \<Rightarrow> ('k \<times> 'v) list" where
  "mapSet k v [] = [(k, v)]"
| "mapSet k v ((k', v') # m) = (if k' = k then (k, v) # m else (k', v') # mapSet k v m)"

section \<open>The match evaluator\<close>

text \<open>
  A list item is looked at only through \<^verbatim>\<open>li.classList.contains(c)\<close>; it is modelled
  by the list of its class tokens.
\<close>

type_synonym item = "string list"

definition contains :: "item \<Rightarrow> string \<Rightarrow> bool" where
  "contains li c \<longleftrightarrow> c \<in> set li"

text \<open>The tag looked for: \<^verbatim>\<open>cls.replace('%value%', v).replace('_', '-')\<close>.\<close>

definition derivedTag :: "string \<Rightarrow> string \<Rightarrow> string" where
  "derivedTag cls v = replace (replace cls ''%value%'' v) ''_'' ''-''"

text \<open>The two loops of \<^verbatim>\<open>#isMatchOne\<close>, one for each mode.\<close>

fun isMatchOneOr :: "item \<Rightarrow> string list \<Rightarrow> string \<Rightarrow> bool" where
  "isMatchOneOr li [] cls = False"
| "isMatchOneOr li (v # vs) cls =
     (if contains li (derivedTag cls v) then True else isMatchOneOr li vs cls)"

fun isMatchOneAnd :: "item \<Rightarrow> string list \<Rightarrow> string \<Rightarrow> bool" where
  "isMatchOneAnd li [] cls = True"
| "isMatchOneAnd li (v # vs) cls =
     (if \<not> contains li (derivedTag cls v) then False else isMatchOneAnd li vs cls)"

definition isMatchOne :: "item \<Rightarrow> string list \<Rightarrow> string \<Rightarrow> bool \<Rightarrow> bool" where
  "isMatchOne li vs cls isOr =
     (if isOr then isMatchOneOr li vs cls else isMatchOneAnd li vs cls)"

text \<open>\<^verbatim>\<open>#isMatch\<close>: the loop over the map returns at the first key that fails.\<close>

fun isMatch :: "item \<Rightarrow> keyToVals \<Rightarrow> bool" where
  "isMatch li [] = True"
| "isMatch li ((key, oa, vs, cls, qvar) # keyToVals) =
     (if \<not> isMatchOne li vs cls (Or = oa) then False else isMatch li keyToVals)"

section \<open>The controls and the criterion snapshot\<close>

text \<open>
  An input of a value group, as the program reads and writes it: its \<^verbatim>\<open>value\<close> and
  its \<^verbatim>\<open>checked\<close> state.
\<close>

type_synonym checkbox = "string \<times> bool"

text \<open>
  The elements of one key, \<^verbatim>\<open>[HTMLInputElement, HTMLInputElement|null,
  HTMLInputElement[]|null]\<close>, together with the type string that \<^verbatim>\<open>#initFilter\<close>
  stores beside them. For the type \<^verbatim>\<open>'select'\<close> they are \<^verbatim>\<open>[sel, null, null]\<close> and
  the program uses \<^verbatim>\<open>sel.value\<close> only. For the type \<^verbatim>\<open>'checkbox'\<close> they are
  \<^verbatim>\<open>[ena, rel, cbs]\<close>: \<^verbatim>\<open>ena\<close> and \<^verbatim>\<open>rel\<close> come from \<^verbatim>\<open>querySelector\<close> and are
  \<open>None\<close> when the page has no such element, otherwise their \<^verbatim>\<open>checked\<close> state;
  \<^verbatim>\<open>cbs\<close> comes from \<^verbatim>\<open>Array.from\<close> and is always an array.
\<close>

datatype uiElements =
    Select string
  | Checkbox "bool option" "bool option" "checkbox list"

text \<open>
  \<^verbatim>\<open>#keyToUis\<close>: from the key to \<^verbatim>\<open>[cls, qvar, type, es]\<close>. The state of the
  controls lives in the elements, so a write to a control gives a new map.
\<close>

type_synonym keyToUis = "(string \<times> string \<times> string \<times> uiElements) list"

fun isCheckedAtLeastOne :: "checkbox list \<Rightarrow> bool" where
  "isCheckedAtLeastOne [] = False"
| "isCheckedAtLeastOne ((val, checked) # cbs) =
     (if checked then True else isCheckedAtLeastOne cbs)"

fun isCheckedAll :: "checkbox list \<Rightarrow> bool" where
  "isCheckedAll [] = True"
| "isCheckedAll ((val, checked) # cbs) =
     (if \<not> checked then False else isCheckedAll cbs)"

fun getCheckedVals :: "checkbox list \<Rightarrow> string list" where
  "getCheckedVals [] = []"
| "getCheckedVals ((val, checked) # cbs) =
     (if checked then val # getCheckedVals cbs else getCheckedVals cbs)"

text \<open>
  \<^verbatim>\<open>#getKeyToVals\<close>: the loop over \<^verbatim>\<open>#keyToUis\<close>, with the map \<^verbatim>\<open>kvs\<close> built so
  far. A key of the type \<^verbatim>\<open>'checkbox'\<close> is set only under the guard
  \<^verbatim>\<open>ena && rel && cbs && ena.checked\<close>.
\<close>

fun getKeyToValsLoop :: "keyToUis \<Rightarrow> keyToVals \<Rightarrow> keyToVals" where
  "getKeyToValsLoop [] kvs = kvs"
| "getKeyToValsLoop ((key, cls, qvar, Select sel) # uis) kvs =
     getKeyToValsLoop uis
       (if [] \<noteq> sel then mapSet key (Or, [sel], cls, qvar) kvs else kvs)"
| "getKeyToValsLoop ((key, cls, qvar, Checkbox ena rel cbs) # uis) kvs =
     getKeyToValsLoop uis
       (case (ena, rel) of
          (Some enaChecked, Some relChecked) \<Rightarrow>
            if enaChecked
            then mapSet key (if relChecked then And else Or, getCheckedVals cbs, cls, qvar) kvs
            else kvs
        | _ \<Rightarrow> kvs)"

definition getKeyToVals :: "keyToUis \<Rightarrow> keyToVals" where
  "getKeyToVals uis = getKeyToValsLoop uis []"

subsection \<open>The listeners of a value group\<close>

text \<open>\<^verbatim>\<open>for (const cb of cbs) cb.checked = b\<close>.\<close>

fun setChecked :: "bool \<Rightarrow> checkbox list \<Rightarrow> checkbox list" where
  "setChecked b [] = []"
| "setChecked b ((val, checked) # cbs) = (val, b) # setChecked b cbs"

text \<open>
  The listener of a click on \<^verbatim>\<open>ena\<close>, before its call of \<^verbatim>\<open>#update\<close>: from
  \<^verbatim>\<open>ena.checked\<close> and the inputs of the group to the inputs it leaves.
\<close>

definition enaListener :: "bool \<Rightarrow> checkbox list \<Rightarrow> checkbox list" where
  "enaListener enaChecked cbs =
     (let cbs1 = (if enaChecked \<and> \<not> isCheckedAtLeastOne cbs then setChecked True cbs else cbs)
      in if \<not> enaChecked \<and> isCheckedAll cbs1 then setChecked False cbs1 else cbs1)"

text \<open>
  A click of the user on \<^verbatim>\<open>ena\<close>: the browser flips the checked state of the input
  and then runs the listener. The listeners of a group are registered only under
  \<^verbatim>\<open>if (ena && cbs)\<close>.
\<close>

fun clickEna :: "uiElements \<Rightarrow> uiElements" where
  "clickEna (Checkbox (Some enaChecked) rel cbs) =
     Checkbox (Some (\<not> enaChecked)) rel (enaListener (\<not> enaChecked) cbs)"
| "clickEna es = es"

text \<open>
  A click of the user on the input \<open>i\<close> of the group: the browser flips it, then the
  listener sets \<^verbatim>\<open>ena.checked = this.#isCheckedAtLeastOne(cbs)\<close>.
\<close>

fun clickValue :: "nat \<Rightarrow> uiElements \<Rightarrow> uiElements" where
  "clickValue i (Checkbox ena rel cbs) =
     (if i < length cbs
      then (let cbs' = cbs[i := (fst (cbs ! i), \<not> snd (cbs ! i))]
            in Checkbox (case ena of None \<Rightarrow> None | Some _ \<Rightarrow> Some (isCheckedAtLeastOne cbs'))
                 rel cbs')
      else Checkbox ena rel cbs)"
| "clickValue i es = es"


section \<open>The URL codec\<close>

text \<open>The parts of \<^verbatim>\<open>document.location\<close> that the program reads.\<close>

record location =
  origin :: string
  pathname :: string
  search :: string
  hash :: string

text \<open>\<^verbatim>\<open>const rs = { or: '', and: '.' }\<close>.\<close>

fun rs :: "relation \<Rightarrow> string" where
  "rs Or = []"
| "rs And = ''.''"

text \<open>The loop of \<^verbatim>\<open>#setUrlParams\<close>, with the array \<^verbatim>\<open>ps\<close> pushed so far.\<close>

fun setUrlParamsLoop :: "keyToVals \<Rightarrow> string list \<Rightarrow> string list" where
  "setUrlParamsLoop [] ps = ps"
| "setUrlParamsLoop ((key, oa, vs, cls, qvar) # keyToVals) ps =
     setUrlParamsLoop keyToVals
       (if length vs \<noteq> 0 then ps @ [qvar @ ''='' @ rs oa @ join '','' vs] else ps)"

text \<open>
  \<^verbatim>\<open>#setUrlParams\<close>: the result is the string handed to
  \<^verbatim>\<open>history.replaceState('', '', url + document.location.hash)\<close>.
\<close>

definition setUrlParams :: "location \<Rightarrow> keyToVals \<Rightarrow> string" where
  "setUrlParams loc keyToVals =
     (let ps = setUrlParamsLoop keyToVals [];
          url = (if length ps > 0 then ''?'' @ join ''&'' ps else origin loc @ pathname loc)
      in url @ hash loc)"

subsection \<open>Reading the query string\<close>

text \<open>
  \<^verbatim>\<open>document.location.search\<close> of the page at a URL: the text from the first question
  mark up to the fragment, empty when nothing follows the question mark. The URL parser
  drops tabs and line breaks from its input first. Left out are its removal of control
  characters and spaces at the two ends of the input, and its percent-encoding of the
  query, which \<^verbatim>\<open>URLSearchParams\<close> decodes again.
\<close>

definition searchOf :: "string \<Rightarrow> string" where
  "searchOf url =
     (let input = filter (\<lambda>c. c \<notin> set [CHR 0x09, CHR 0x0A, CHR 0x0D]) url;
          q = dropWhile (\<lambda>c. c \<noteq> CHR ''?'') (takeWhile (\<lambda>c. c \<noteq> CHR ''#'') input)
      in if length q \<le> 1 then [] else q)"

text \<open>The value of a hexadecimal digit.\<close>

definition hexDigit :: "char \<Rightarrow> nat option" where
  "hexDigit c =
     (let n = of_char c :: nat
      in if 48 \<le> n \<and> n \<le> 57 then Some (n - 48)
         else if 65 \<le> n \<and> n \<le> 70 then Some (n - 55)
         else if 97 \<le> n \<and> n \<le> 102 then Some (n - 87)
         else None)"

text \<open>
  Percent-decoding of the URL standard: a percent sign followed by two hexadecimal digits
  is the byte they name; any other character stands for itself.
\<close>

fun percentDecode :: "string \<Rightarrow> string" where
  "percentDecode (c # h # l # s) =
     (if c = CHR ''%''
      then (case (hexDigit h, hexDigit l) of
              (Some a, Some b) \<Rightarrow> char_of (16 * a + b) # percentDecode s
            | _ \<Rightarrow> c # percentDecode (h # l # s))
      else c # percentDecode (h # l # s))"
| "percentDecode s = s"

text \<open>A name or a value of a pair: plus signs are spaces, then percent-decoding.\<close>

definition formDecode :: "string \<Rightarrow> string" where
  "formDecode s = percentDecode (map (\<lambda>c. if c = CHR ''+'' then CHR '' '' else c) s)"

text \<open>
  \<^verbatim>\<open>new URLSearchParams(init)\<close> for a string: a leading question mark is dropped, the
  rest is split at the ampersands, empty pieces are skipped, and a piece is split at its
  first equals sign into a name and a value (the value is empty without one).
\<close>

type_synonym urlSearchParams = "(string \<times> string) list"

definition parsePair :: "string \<Rightarrow> string \<times> string" where
  "parsePair sq =
     (formDecode (takeWhile (\<lambda>c. c \<noteq> CHR ''='') sq),
      formDecode (drop 1 (dropWhile (\<lambda>c. c \<noteq> CHR ''='') sq)))"

definition URLSearchParams :: "string \<Rightarrow> urlSearchParams" where
  "URLSearchParams init =
     map parsePair
       (filter (\<lambda>sq. sq \<noteq> [])
          (split CHR ''&'' (if take 1 init = ''?'' then drop 1 init else init)))"

text \<open>\<^verbatim>\<open>usp.has(name)\<close>, and \<^verbatim>\<open>usp.get(name)\<close>: the first value, \<open>None\<close> for null.\<close>

definition uspHas :: "urlSearchParams \<Rightarrow> string \<Rightarrow> bool" where
  "uspHas usp name \<longleftrightarrow> name \<in> set (map fst usp)"

definition uspGet :: "urlSearchParams \<Rightarrow> string \<Rightarrow> string option" where
  "uspGet usp name = map_of usp name"

text \<open>\<^verbatim>\<open>v.startsWith('.')\<close> and \<^verbatim>\<open>v.substring(1)\<close>.\<close>

definition startsWith :: "string \<Rightarrow> string \<Rightarrow> bool" where
  "startsWith v p \<longleftrightarrow> take (length p) v = p"

definition substring :: "string \<Rightarrow> nat \<Rightarrow> string" where
  "substring v n = drop n v"

text \<open>
  The body of the loop of \<^verbatim>\<open>#getStateFromUrlParams\<close> for the elements of one key,
  once \<^verbatim>\<open>usp.get(qvar)\<close> has given \<open>v0\<close>. The mode \<open>oa\<close> read from the marker is used
  for \<^verbatim>\<open>rel.checked\<close> only; \<^verbatim>\<open>vs.has(cb.value)\<close> is membership in the set of the
  trimmed pieces of \<open>v\<close>.
\<close>

definition applyUrlValue :: "string \<Rightarrow> uiElements \<Rightarrow> uiElements" where
  "applyUrlValue v0 es =
     (let (v, oa) = (if startsWith v0 ''.'' then (substring v0 1, And) else (v0, Or))
      in case es of
           Select sel \<Rightarrow> Select v
         | Checkbox ena rel cbs \<Rightarrow>
             Checkbox (map_option (\<lambda>_. True) ena) (map_option (\<lambda>_. oa = And) rel)
               (let vs = set (map trim (split CHR '','' v))
                in map (\<lambda>(val, checked). (val, val \<in> vs)) cbs))"

text \<open>
  The loop of \<^verbatim>\<open>#getStateFromUrlParams\<close> over \<^verbatim>\<open>#keyToUis\<close>. A key whose query
  variable the URL does not have is skipped (\<^verbatim>\<open>usp.has\<close> is false exactly when
  \<^verbatim>\<open>usp.get\<close> is null).
\<close>

fun getStateFromUrlParamsLoop :: "urlSearchParams \<Rightarrow> keyToUis \<Rightarrow> keyToUis" where
  "getStateFromUrlParamsLoop usp [] = []"
| "getStateFromUrlParamsLoop usp ((key, cls, qvar, es) # uis) =
     (if \<not> uspHas usp qvar then (key, cls, qvar, es)
      else (case uspGet usp qvar of
              None \<Rightarrow> (key, cls, qvar, es)
            | Some v0 \<Rightarrow> (key, cls, qvar, applyUrlValue v0 es)))
     # getStateFromUrlParamsLoop usp uis"

definition getStateFromUrlParams :: "location \<Rightarrow> keyToUis \<Rightarrow> keyToUis" where
  "getStateFromUrlParams loc uis = getStateFromUrlParamsLoop (URLSearchParams (search loc)) uis"

section \<open>The list and the visibility aggregator\<close>

text \<open>
  A number as the program gets it from \<^verbatim>\<open>parseInt\<close>: an integer or \<^verbatim>\<open>NaN\<close>. The sum
  with \<^verbatim>\<open>NaN\<close> is \<^verbatim>\<open>NaN\<close>, every comparison with \<^verbatim>\<open>NaN\<close> is false, and \<^verbatim>\<open>NaN\<close>
  and zero are the numbers that count as false in a condition. Integers are unbounded
  here; the program's are exact up to \<open>2^53\<close>.
\<close>

datatype number = NaN | Num int

fun addNum :: "number \<Rightarrow> number \<Rightarrow> number" where
  "addNum (Num a) (Num b) = Num (a + b)"
| "addNum a b = NaN"

fun gt :: "number \<Rightarrow> number \<Rightarrow> bool" where
  "gt (Num a) (Num b) \<longleftrightarrow> a > b"
| "gt a b \<longleftrightarrow> False"

fun truthy :: "number \<Rightarrow> bool" where
  "truthy (Num n) \<longleftrightarrow> n \<noteq> 0"
| "truthy NaN \<longleftrightarrow> False"

text \<open>A child of a list block: whether its tag is \<^verbatim>\<open>LI\<close>, its class tokens, its hidden attribute.\<close>

record listChild =
  tagLI :: bool
  classList :: item
  liHidden :: bool

text \<open>
  A child of the list container that is an \<^verbatim>\<open>HTMLElement\<close> (every loop skips the
  others). The data attributes are kept as the program reads them: \<open>depth\<close> is \<open>None\<close>
  when \<^verbatim>\<open>dataset[dsDepth]\<close> is missing or empty, which is when the condition
  \<^verbatim>\<open>if (e.dataset[dsDepth])\<close> fails, and else \<^verbatim>\<open>parseInt\<close> of it; \<open>count\<close> is
  \<^verbatim>\<open>parseInt(e.dataset[dsCount] ?? '')\<close>, so \<^verbatim>\<open>NaN\<close> without the attribute. The program
  writes \<^verbatim>\<open>String(n)\<close> of an integer there, which \<^verbatim>\<open>parseInt\<close> reads back as \<open>n\<close>.
\<close>

record element =
  isList :: bool
  depth :: "number option"
  count :: number
  hidden :: bool
  style :: "string option"
  offsetHeight :: nat
  children :: "listChild list"






subsection \<open>\<^verbatim>\<open>#countUpItems\<close>\<close>

text \<open>The first loop: \<^verbatim>\<open>if (e.dataset[dsDepth]) e.dataset[dsCount] = '0'\<close>.\<close>

fun resetCounts :: "element list \<Rightarrow> element list" where
  "resetCounts [] = []"
| "resetCounts (e # es) =
     (if depth e \<noteq> None then e\<lparr>count := Num 0\<rparr> else e) # resetCounts es"

text \<open>
  The stack \<^verbatim>\<open>hs\<close> holds references to elements of the container, which the second
  loop writes to while they are on the stack. A reference is the position of the
  element among the children; the stack is kept with its top first.

  \<^verbatim>\<open>parseInt(e.dataset[dsDepth] ?? '')\<close> of the element at a position.
\<close>

definition depthAt :: "element list \<Rightarrow> nat \<Rightarrow> number" where
  "depthAt es i = (case depth (es ! i) of None \<Rightarrow> NaN | Some d \<Rightarrow> d)"

text \<open>
  The \<^verbatim>\<open>while\<close> loop: the top is dropped (\<^verbatim>\<open>hs.length -= 1\<close>) until the stack is
  empty or the depth \<open>hi\<close> of the new heading is greater than the depth of the top.
\<close>

fun popClosed :: "element list \<Rightarrow> number \<Rightarrow> nat list \<Rightarrow> nat list" where
  "popClosed es hi [] = []"
| "popClosed es hi (l # hs) =
     (if gt hi (depthAt es l) then l # hs else popClosed es hi hs)"

text \<open>
  The loop \<^verbatim>\<open>for (const h of hs)\<close> at a list block of count \<open>c\<close>, over the references it
  still has to visit: the sum is stored, and the hidden attribute is removed when the sum
  is a number other than zero and set otherwise.
\<close>

fun addCount :: "number \<Rightarrow> nat list \<Rightarrow> element list \<Rightarrow> element list" where
  "addCount c [] es = es"
| "addCount c (h # hs) es =
     (let total = addNum (count (es ! h)) c
      in addCount c hs (es[h := (es ! h)\<lparr>count := total, hidden := \<not> truthy total\<rparr>]))"

text \<open>
  One round of the second loop, at the position \<open>i\<close>, on the stack and the elements.
  The loop visits the stack from its bottom, so in the reverse of the order kept here.
\<close>

definition countStep :: "nat \<Rightarrow> nat list \<times> element list \<Rightarrow> nat list \<times> element list" where
  "countStep i st =
     (let (hs, es) = st
      in if depth (es ! i) \<noteq> None
         then (i # popClosed es (depthAt es i) hs, es)
         else (hs, addCount (count (es ! i)) (rev hs) es))"

definition countUpItems :: "element list \<Rightarrow> element list" where
  "countUpItems es = snd (fold countStep [0 ..< length es] ([], resetCounts es))"

section \<open>The recompute cycle and the initialisation\<close>

text \<open>
  The state of one instance: the private fields that the cycle reads and writes, the
  location of the document, and the URLs handed to \<^verbatim>\<open>history.replaceState\<close> so far,
  the oldest first. Of the location the cycle reads the origin, the path and the
  fragment; the query string is read once, by \<^verbatim>\<open>#getStateFromUrlParams\<close>.
\<close>

record filterCat =
  keyToUis :: keyToUis
  listElm :: "element list"
  stopUpdate :: bool
  doInitializeByParams :: bool
  docLocation :: location
  replaced :: "string list"




section \<open>Notions for stating the properties\<close>

text \<open>
  What one round of the loop of \<^verbatim>\<open>#getKeyToVals\<close> contributes for the entry of a key:
  nothing, or the one criterion of the key.
\<close>

fun entryOf :: "string \<times> string \<times> string \<times> uiElements \<Rightarrow> keyToVals" where
  "entryOf (key, cls, qvar, Select sel) =
     (if sel \<noteq> [] then [(key, Or, [sel], cls, qvar)] else [])"
| "entryOf (key, cls, qvar, Checkbox ena rel cbs) =
     (if ena = Some True \<and> rel \<noteq> None
      then [(key, if rel = Some True then And else Or, getCheckedVals cbs, cls, qvar)]
      else [])"

text \<open>One round of the loop of \<^verbatim>\<open>#getStateFromUrlParams\<close>, on the entry of a key.\<close>

fun applyUrlEntry ::
  "urlSearchParams \<Rightarrow> string \<times> string \<times> string \<times> uiElements
     \<Rightarrow> string \<times> string \<times> string \<times> uiElements" where
  "applyUrlEntry usp (key, cls, qvar, es) =
     (key, cls, qvar, case uspGet usp qvar of None \<Rightarrow> es | Some v0 \<Rightarrow> applyUrlValue v0 es)"


text \<open>
  The aggregation as the specification words it. The heading at the position \<open>i\<close> is
  still open at the position \<open>j\<close> when no heading between them has a depth that is not
  greater than its own (a heading of equal or lesser depth closes it). The list blocks
  under it among the first \<open>n\<close> children are the children without a depth at which it is
  still open, and its count is the sum of their counts.
\<close>

definition stillOpen :: "element list \<Rightarrow> nat \<Rightarrow> nat \<Rightarrow> bool" where
  "stillOpen es i j \<longleftrightarrow>
     (\<forall>k \<in> set [Suc i ..< j]. depth (es ! k) \<noteq> None \<longrightarrow> gt (depthAt es k) (depthAt es i))"

definition blocksUnder :: "element list \<Rightarrow> nat \<Rightarrow> nat \<Rightarrow> nat list" where
  "blocksUnder es n i = filter (\<lambda>j. depth (es ! j) = None \<and> stillOpen es i j) [Suc i ..< n]"

definition countUnder :: "element list \<Rightarrow> nat \<Rightarrow> nat \<Rightarrow> number" where
  "countUnder es n i = foldl addNum (Num 0) (map (\<lambda>j. count (es ! j)) (blocksUnder es n i))"

text \<open>
  What the second loop has made of the child at the position \<open>i\<close> once it has passed the
  first \<open>n\<close> children: a child without a depth is as it was; a heading has the sum of
  the blocks under it as its count, and its hidden attribute is as it was while there is
  no block under it, and says whether the count is zero from the first block on.
\<close>

definition aggregated :: "element list \<Rightarrow> nat \<Rightarrow> nat \<Rightarrow> element" where
  "aggregated es n i =
     (if depth (es ! i) = None then es ! i
      else (es ! i)\<lparr>count := countUnder es n i,
                    hidden := (if blocksUnder es n i = [] then hidden (es ! i)
                               else \<not> truthy (countUnder es n i))\<rparr>)"

text \<open>The stack after the first \<open>n\<close> children: the headings still open, the latest first.\<close>

definition openStack :: "element list \<Rightarrow> nat \<Rightarrow> nat list" where
  "openStack es n = rev (filter (\<lambda>i. depth (es ! i) \<noteq> None \<and> stillOpen es i n) [0 ..< n])"

text \<open>
  The characters that pass through the URL unchanged: a character that is not a control
  character and none of \<^verbatim>\<open>&\<close>, \<^verbatim>\<open>+\<close>, \<^verbatim>\<open>%\<close> and \<^verbatim>\<open>#\<close>. The code puts names and values
  into the query string as they are; an ampersand would end the pair, a plus sign or a
  percent sign would be decoded, a number sign would start the fragment, and the URL
  parser drops tabs and line breaks, and control characters and spaces at the ends of
  its input.
\<close>

definition urlSafe :: "char \<Rightarrow> bool" where
  "urlSafe c \<longleftrightarrow>
     c \<notin> set [CHR ''&'', CHR ''+'', CHR ''%'', CHR ''#''] \<and> 32 \<le> (of_char c :: nat)"

text \<open>A query variable that can be read back: made of such characters, with no equals sign.\<close>

definition plainName :: "string \<Rightarrow> bool" where
  "plainName q \<longleftrightarrow> (\<forall>c \<in> set q. urlSafe c \<and> c \<noteq> CHR ''='')"

text \<open>
  A value that can be read back: made of such characters, with no comma and no marker
  \<^verbatim>\<open>.\<close>, and with no white space at its ends, which \<^verbatim>\<open>trim\<close> would remove.
\<close>

definition plainValue :: "string \<Rightarrow> bool" where
  "plainValue v \<longleftrightarrow> (\<forall>c \<in> set v. urlSafe c \<and> c \<noteq> CHR '','' \<and> c \<noteq> CHR ''.'') \<and> trim v = v"

text \<open>
  The pair that the encoder emits for a criterion, its value part, and the entry that
  \<^verbatim>\<open>URLSearchParams\<close> has for it.
\<close>

fun queryValue :: "string \<times> criterion \<Rightarrow> string" where
  "queryValue (key, oa, vs, cls, qvar) = rs oa @ join '','' vs"

fun queryPair :: "string \<times> criterion \<Rightarrow> string" where
  "queryPair (key, oa, vs, cls, qvar) = qvar @ ''='' @ rs oa @ join '','' vs"

fun queryEntry :: "string \<times> criterion \<Rightarrow> string \<times> string" where
  "queryEntry (key, oa, vs, cls, qvar) = (qvar, rs oa @ join '','' vs)"

text \<open>
  A criterion that the URL can carry: at least one value, a plain query variable and
  plain values.
\<close>

fun encodable :: "string \<times> criterion \<Rightarrow> bool" where
  "encodable (key, oa, vs, cls, qvar) \<longleftrightarrow>
     vs \<noteq> [] \<and> plainName qvar \<and> (\<forall>v \<in> set vs. plainValue v)"

text \<open>
  The controls of a key with nothing selected, and two maps of controls that differ in
  the state of the controls only: the same keys in the same order, each with the same
  class pattern and query variable, the same kind of control, the same toggles present
  and the same values in the group.
\<close>

fun unset :: "uiElements \<Rightarrow> uiElements" where
  "unset (Select sel) = Select []"
| "unset (Checkbox ena rel cbs) =
     Checkbox (map_option (\<lambda>_. False) ena) (map_option (\<lambda>_. False) rel)
       (map (\<lambda>cb. (fst cb, False)) cbs)"

definition sameControls :: "keyToUis \<Rightarrow> keyToUis \<Rightarrow> bool" where
  "sameControls uis0 uis \<longleftrightarrow>
     list_all2 (\<lambda>(key0, cls0, qvar0, es0) (key, cls, qvar, es).
        key0 = key \<and> cls0 = cls \<and> qvar0 = qvar \<and> unset es0 = unset es) uis0 uis"

text \<open>The inputs of a value group have values that differ from each other.\<close>

fun distinctValues :: "uiElements \<Rightarrow> bool" where
  "distinctValues (Select sel) \<longleftrightarrow> True"
| "distinctValues (Checkbox ena rel cbs) \<longleftrightarrow> distinct (map fst cbs)"

section \<open>Properties of the match evaluator\<close>

lemma isMatchOneOr_iff:
  "isMatchOneOr li vs cls \<longleftrightarrow> (\<exists>v \<in> set vs. contains li (derivedTag cls v))"
  by (induction vs) auto

lemma isMatchOneAnd_iff:
  "isMatchOneAnd li vs cls \<longleftrightarrow> (\<forall>v \<in> set vs. contains li (derivedTag cls v))"
  by (induction vs) auto

lemma isMatch_iff:
  "isMatch li kvs \<longleftrightarrow>
     (\<forall>(key, oa, vs, cls, qvar) \<in> set kvs. isMatchOne li vs cls (Or = oa))"
  by (induction li kvs rule: isMatch.induct) auto

lemma isMatch_append:
  "isMatch li (kvs @ kvs') \<longleftrightarrow> isMatch li kvs \<and> isMatch li kvs'"
  by (induction li kvs rule: isMatch.induct) auto

text \<open>
  Claim C1. A list item matches a criterion set exactly when the check of every key of
  the set passes, and the first key whose check fails settles the answer whatever keys
  follow it. The check of one key passes in the mode OR exactly when the item carries the
  tag derived from at least one of the selected values, and in the mode AND exactly when
  it carries the tags derived from all of them. With no key in the set every item matches.
\<close>

theorem isMatch_every_key:
  "(isMatch li kvs \<longleftrightarrow>
      (\<forall>(key, oa, vs, cls, qvar) \<in> set kvs. isMatchOne li vs cls (Or = oa)))
   \<and> (\<not> isMatchOne li vs cls (Or = oa) \<longrightarrow>
        \<not> isMatch li (pre @ (key, oa, vs, cls, qvar) # post))
   \<and> (isMatchOne li vs cls True \<longleftrightarrow> (\<exists>v \<in> set vs. contains li (derivedTag cls v)))
   \<and> (isMatchOne li vs cls False \<longleftrightarrow> (\<forall>v \<in> set vs. contains li (derivedTag cls v)))
   \<and> isMatch li []"
proof -
  have every: "isMatch li kvs \<longleftrightarrow>
      (\<forall>(key, oa, vs, cls, qvar) \<in> set kvs. isMatchOne li vs cls (Or = oa))"
    by (rule isMatch_iff)
  have first: "\<not> isMatchOne li vs cls (Or = oa) \<longrightarrow>
      \<not> isMatch li (pre @ (key, oa, vs, cls, qvar) # post)"
    by (simp add: isMatch_append)
  have one_or: "isMatchOne li vs cls True \<longleftrightarrow> (\<exists>v \<in> set vs. contains li (derivedTag cls v))"
    by (simp add: isMatchOne_def isMatchOneOr_iff)
  have one_and: "isMatchOne li vs cls False \<longleftrightarrow> (\<forall>v \<in> set vs. contains li (derivedTag cls v))"
    by (simp add: isMatchOne_def isMatchOneAnd_iff)
  from every first one_or one_and show ?thesis
    by simp
qed

text \<open>
  The scenario of the specification: the colour red in the mode OR and the sizes S and M
  in the mode AND. An item tagged red and S only fails on the key of the sizes.
\<close>

theorem isMatch_every_key_witness:
  "\<not> isMatch [''color-red'', ''size-S'']
       [(''color'', Or, [''red''], ''color-%value%'', ''color''),
        (''size'', And, [''S'', ''M''], ''size-%value%'', ''size'')]
   \<and> \<not> isMatch [''color-red'', ''size-S'']
       ([(''color'', Or, [''red''], ''color-%value%'', ''color'')]
        @ (''size'', And, [''S'', ''M''], ''size-%value%'', ''size'')
        # [(''shape'', Or, [''round''], ''shape-%value%'', ''shape'')])
   \<and> isMatchOne [''color-red'', ''size-S''] [''red'', ''blue''] ''color-%value%'' True
   \<and> \<not> isMatchOne [''color-red'', ''size-S''] [''S'', ''M''] ''size-%value%'' False"
proof -
  have tags: "derivedTag ''color-%value%'' ''red'' = ''color-red''"
    "derivedTag ''color-%value%'' ''blue'' = ''color-blue''"
    "derivedTag ''size-%value%'' ''S'' = ''size-S''"
    "derivedTag ''size-%value%'' ''M'' = ''size-M''"
    by (simp_all add: derivedTag_def replace_def)
  show ?thesis
    using isMatch_every_key [of "[''color-red'', ''size-S'']"
        "[(''color'', Or, [''red''], ''color-%value%'', ''color''),
          (''size'', And, [''S'', ''M''], ''size-%value%'', ''size'')]"
        "[''S'', ''M'']" "''size-%value%''" And
        "[(''color'', Or, [''red''], ''color-%value%'', ''color'')]"
        "''size''" "''size''" "[(''shape'', Or, [''round''], ''shape-%value%'', ''shape'')]"]
      isMatch_every_key [of "[''color-red'', ''size-S'']" "[]" "[''red'', ''blue'']"
        "''color-%value%''" Or]
    by (simp add: tags contains_def)
qed

section \<open>Properties of the criterion snapshot\<close>

lemma mapSet_fresh: "k \<notin> fst ` set m \<Longrightarrow> mapSet k v m = m @ [(k, v)]"
  by (induction m) auto

lemma map_fst_mapSet:
  "map fst (mapSet k v m) = (if k \<in> set (map fst m) then map fst m else map fst m @ [k])"
proof (induction m)
  case Nil
  show ?case by simp
next
  case (Cons x m)
  obtain k' v' where x: "x = (k', v')" by (cases x)
  show ?case
  proof (cases "k' = k")
    case True
    with x show ?thesis by simp
  next
    case False
    with x Cons show ?thesis by (cases "k \<in> set (map fst m)") simp_all
  qed
qed

lemma fst_set_mapSet: "fst ` set (mapSet k v m) = insert k (fst ` set m)"
proof -
  have "set (map fst (mapSet k v m)) = insert k (set (map fst m))"
    by (auto simp: map_fst_mapSet)
  then show ?thesis by simp
qed


text \<open>The keys of \<^verbatim>\<open>#keyToUis\<close> are the keys of a map, so no key comes twice.\<close>

lemma getKeyToValsLoop_entries:
  "distinct (map fst uis) \<Longrightarrow> fst ` set kvs \<inter> fst ` set uis = {} \<Longrightarrow>
   getKeyToValsLoop uis kvs = kvs @ concat (map entryOf uis)"
proof (induction uis kvs rule: getKeyToValsLoop.induct)
  case (1 kvs)
  then show ?case by simp
next
  case (2 key cls qvar sel uis kvs)
  then show ?case
    by (auto simp: mapSet_fresh fst_set_mapSet)
next
  case (3 key cls qvar ena rel cbs uis kvs)
  then show ?case
    by (auto simp: mapSet_fresh fst_set_mapSet split: option.splits)
qed

lemma getKeyToVals_entries:
  "distinct (map fst uis) \<Longrightarrow> getKeyToVals uis = concat (map entryOf uis)"
  by (simp add: getKeyToVals_def getKeyToValsLoop_entries)

lemma keys_getKeyToValsLoop:
  "fst ` set (getKeyToValsLoop uis kvs) =
     fst ` set kvs \<union> (\<Union>u \<in> set uis. fst ` set (entryOf u))"
proof (induction uis kvs rule: getKeyToValsLoop.induct)
  case (1 kvs)
  then show ?case by simp
next
  case (2 key cls qvar sel uis kvs)
  then show ?case
    by (simp add: fst_set_mapSet)
next
  case (3 key cls qvar ena rel cbs uis kvs)
  show ?case
  proof (cases "ena = Some True \<and> rel \<noteq> None")
    case True
    then obtain r where "ena = Some True" "rel = Some r" by auto
    with 3 show ?thesis by (simp add: fst_set_mapSet)
  next
    case False
    with 3 show ?thesis by (auto split: option.splits)
  qed
qed

text \<open>
  The keys of the snapshot, as the code has them: a key of a selector with a value that
  is not empty, and a key of a value group whose enabled toggle exists and is checked
  and whose relation toggle exists.
\<close>

lemma key_present_iff:
  "key \<in> fst ` set (getKeyToVals uis) \<longleftrightarrow>
     (\<exists>cls qvar es. (key, cls, qvar, es) \<in> set uis \<and>
        (case es of Select sel \<Rightarrow> sel \<noteq> []
         | Checkbox ena rel cbs \<Rightarrow> ena = Some True \<and> rel \<noteq> None))"
proof -
  have "key \<in> fst ` set (entryOf u) \<longleftrightarrow>
      (\<exists>cls qvar es. u = (key, cls, qvar, es) \<and>
        (case es of Select sel \<Rightarrow> sel \<noteq> []
         | Checkbox ena rel cbs \<Rightarrow> ena = Some True \<and> rel \<noteq> None))" for u
    by (cases u rule: entryOf.cases) auto
  then show ?thesis
    unfolding getKeyToVals_def keys_getKeyToValsLoop by auto
qed


text \<open>
  Claim C7. A key is in the snapshot read from the controls exactly when, for a selector, a
  value that is not empty is selected, and for a value group, the enabled toggle is on;
  a value group with its enabled toggle on is in the snapshot also when it has no relation
  toggle. The code leaves such a group out: with the enabled toggle on, one value checked
  and no relation toggle the snapshot is empty, and the same controls with a relation
  toggle give the key.
\<close>

theorem getKeyToVals_without_relation_toggle:
  "getKeyToVals [(''size'', ''size-%value%'', ''size'',
       Checkbox (Some True) None [(''S'', True), (''M'', False)])] = []
   \<and> getKeyToVals [(''size'', ''size-%value%'', ''size'',
       Checkbox (Some True) (Some False) [(''S'', True), (''M'', False)])]
     = [(''size'', Or, [''S''], ''size-%value%'', ''size'')]"
  by (simp add: getKeyToVals_def)

section \<open>Properties of reading the URL into the controls\<close>

lemma uspHas_iff: "uspHas usp name \<longleftrightarrow> uspGet usp name \<noteq> None"
  by (simp add: uspHas_def uspGet_def map_of_eq_None_iff)

lemma getStateFromUrlParamsLoop_map:
  "getStateFromUrlParamsLoop usp uis = map (applyUrlEntry usp) uis"
  by (induction usp uis rule: getStateFromUrlParamsLoop.induct)
     (auto simp: uspHas_iff split: option.splits)

lemma fst_applyUrlEntry: "fst (applyUrlEntry usp u) = fst u"
  by (cases u) auto




section \<open>A key with no selected value\<close>



section \<open>Properties of the listeners of a value group\<close>

lemma isCheckedAtLeastOne_iff: "isCheckedAtLeastOne cbs \<longleftrightarrow> (\<exists>cb \<in> set cbs. snd cb)"
  by (induction cbs rule: isCheckedAtLeastOne.induct) auto

lemma isCheckedAll_iff: "isCheckedAll cbs \<longleftrightarrow> (\<forall>cb \<in> set cbs. snd cb)"
  by (induction cbs rule: isCheckedAll.induct) auto

lemma setChecked_map: "setChecked b cbs = map (\<lambda>cb. (fst cb, b)) cbs"
  by (induction b cbs rule: setChecked.induct) auto

text \<open>
  Claim C6, as stated, says of every value group that unchecking one value toggle when
  all were checked leaves the enabled toggle checked. In a group of one value toggle the
  toggle that is unchecked is the last one checked, and the enabled toggle goes off.
\<close>

theorem master_toggle_counterexample:
  "isCheckedAll [(''S'', True)]
   \<and> clickValue 0 (Checkbox (Some True) (Some False) [(''S'', True)])
       = Checkbox (Some False) (Some False) [(''S'', False)]"
  by simp

text \<open>
  Claim C6, amended. In every value group with an enabled toggle: a click that turns the
  enabled toggle on while no value toggle is checked checks all value toggles; a click
  that turns it off while all value toggles are checked unchecks all of them; after a
  click on a value toggle the enabled toggle is checked exactly when at least one value
  toggle is checked. So unchecking one value toggle when all were checked leaves the
  enabled toggle checked in a group of at least two value toggles, and unchecking the only
  checked value toggle unchecks it.
\<close>

theorem master_toggle_coupling:
  "((\<forall>cb \<in> set cbs. \<not> snd cb) \<longrightarrow>
      clickEna (Checkbox (Some False) rel cbs)
        = Checkbox (Some True) rel (map (\<lambda>cb. (fst cb, True)) cbs))
   \<and> ((\<forall>cb \<in> set cbs. snd cb) \<longrightarrow>
      clickEna (Checkbox (Some True) rel cbs)
        = Checkbox (Some False) rel (map (\<lambda>cb. (fst cb, False)) cbs))
   \<and> (i < length cbs \<longrightarrow>
      clickValue i (Checkbox (Some ena) rel cbs)
        = Checkbox (Some (\<exists>cb \<in> set (cbs[i := (fst (cbs ! i), \<not> snd (cbs ! i))]). snd cb)) rel
            (cbs[i := (fst (cbs ! i), \<not> snd (cbs ! i))]))
   \<and> (i < length cbs \<and> 2 \<le> length cbs \<and> (\<forall>cb \<in> set cbs. snd cb) \<longrightarrow>
      (\<exists>cbs'. clickValue i (Checkbox (Some ena) rel cbs) = Checkbox (Some True) rel cbs'))
   \<and> (i < length cbs \<and> (\<forall>j < length cbs. snd (cbs ! j) \<longleftrightarrow> j = i) \<longrightarrow>
      (\<exists>cbs'. clickValue i (Checkbox (Some ena) rel cbs) = Checkbox (Some False) rel cbs'))"
proof -
  let ?cbs' = "cbs[i := (fst (cbs ! i), \<not> snd (cbs ! i))]"
  have on: "clickEna (Checkbox (Some False) rel cbs)
        = Checkbox (Some True) rel (map (\<lambda>cb. (fst cb, True)) cbs)"
    if "\<forall>cb \<in> set cbs. \<not> snd cb"
    using that by (simp add: enaListener_def isCheckedAtLeastOne_iff setChecked_map)
  have off: "clickEna (Checkbox (Some True) rel cbs)
        = Checkbox (Some False) rel (map (\<lambda>cb. (fst cb, False)) cbs)"
    if "\<forall>cb \<in> set cbs. snd cb"
    using that by (simp add: enaListener_def isCheckedAll_iff setChecked_map)
  have one: "clickValue i (Checkbox (Some ena) rel cbs)
        = Checkbox (Some (\<exists>cb \<in> set ?cbs'. snd cb)) rel ?cbs'"
    if "i < length cbs"
    using that by (simp add: isCheckedAtLeastOne_iff Let_def)
  have stays: "\<exists>cbs'. clickValue i (Checkbox (Some ena) rel cbs) = Checkbox (Some True) rel cbs'"
    if i: "i < length cbs" and two: "2 \<le> length cbs" and all: "\<forall>cb \<in> set cbs. snd cb"
  proof -
    define j where "j = (if i = 0 then 1 else 0 :: nat)"
    from i two have j: "j < length cbs" "j \<noteq> i"
      by (auto simp: j_def)
    with all have "snd (?cbs' ! j)" by simp
    moreover from j have "?cbs' ! j \<in> set ?cbs'" by (intro nth_mem) simp
    ultimately have "\<exists>cb \<in> set ?cbs'. snd cb" by blast
    with one [OF i] show ?thesis by simp
  qed
  have last: "\<exists>cbs'. clickValue i (Checkbox (Some ena) rel cbs) = Checkbox (Some False) rel cbs'"
    if i: "i < length cbs" and only: "\<forall>j < length cbs. snd (cbs ! j) \<longleftrightarrow> j = i"
  proof -
    have "\<not> snd cb" if "cb \<in> set ?cbs'" for cb
    proof -
      from that obtain j where j: "j < length cbs" "cb = ?cbs' ! j"
        by (auto simp: in_set_conv_nth)
      with only show ?thesis by (cases "j = i") auto
    qed
    then have "\<not> (\<exists>cb \<in> set ?cbs'. snd cb)" by blast
    with one [OF i] show ?thesis by simp
  qed
  have c1: "(\<forall>cb \<in> set cbs. \<not> snd cb) \<longrightarrow>
      clickEna (Checkbox (Some False) rel cbs)
        = Checkbox (Some True) rel (map (\<lambda>cb. (fst cb, True)) cbs)"
    using on by (rule impI)
  have c2: "(\<forall>cb \<in> set cbs. snd cb) \<longrightarrow>
      clickEna (Checkbox (Some True) rel cbs)
        = Checkbox (Some False) rel (map (\<lambda>cb. (fst cb, False)) cbs)"
    using off by (rule impI)
  have c3: "i < length cbs \<longrightarrow>
      clickValue i (Checkbox (Some ena) rel cbs)
        = Checkbox (Some (\<exists>cb \<in> set ?cbs'. snd cb)) rel ?cbs'"
    using one by (rule impI)
  have c4: "i < length cbs \<and> 2 \<le> length cbs \<and> (\<forall>cb \<in> set cbs. snd cb) \<longrightarrow>
      (\<exists>cbs'. clickValue i (Checkbox (Some ena) rel cbs) = Checkbox (Some True) rel cbs')"
    using stays by (intro impI) (elim conjE)
  have c5: "i < length cbs \<and> (\<forall>j < length cbs. snd (cbs ! j) \<longleftrightarrow> j = i) \<longrightarrow>
      (\<exists>cbs'. clickValue i (Checkbox (Some ena) rel cbs) = Checkbox (Some False) rel cbs')"
    using last by (intro impI) (elim conjE)
  show ?thesis
    by (rule conjI [OF c1 conjI [OF c2 conjI [OF c3 conjI [OF c4 c5]]]])
qed


text \<open>A group of the sizes S and M: enabling with none checked, then unchecking S.\<close>

theorem master_toggle_coupling_witness:
  "clickEna (Checkbox (Some False) (Some False) [(''S'', False), (''M'', False)])
     = Checkbox (Some True) (Some False) [(''S'', True), (''M'', True)]
   \<and> clickEna (Checkbox (Some True) (Some False) [(''S'', True), (''M'', True)])
     = Checkbox (Some False) (Some False) [(''S'', False), (''M'', False)]
   \<and> clickValue 0 (Checkbox (Some True) (Some False) [(''S'', True), (''M'', True)])
     = Checkbox (Some True) (Some False) [(''S'', False), (''M'', True)]
   \<and> clickValue 1 (Checkbox (Some True) (Some False) [(''S'', False), (''M'', True)])
     = Checkbox (Some False) (Some False) [(''S'', False), (''M'', False)]"
  using master_toggle_coupling [of "[(''S'', False), (''M'', False)]" "Some False" 0 True]
    master_toggle_coupling [of "[(''S'', True), (''M'', True)]" "Some False" 0 True]
    master_toggle_coupling [of "[(''S'', False), (''M'', True)]" "Some False" 1 True]
  by simp

section \<open>Properties of the encoder\<close>




section \<open>Properties of the reentrancy guard\<close>





section \<open>Properties of the derived tag\<close>










section \<open>Properties of the visibility aggregator\<close>

lemma gt_trans: "gt a b \<Longrightarrow> gt b c \<Longrightarrow> gt a c"
  by (cases a; cases b; cases c) auto

lemma resetCounts_map:
  "resetCounts es = map (\<lambda>e. if depth e \<noteq> None then e\<lparr>count := Num 0\<rparr> else e) es"
  by (induction es) auto

lemma addCount_length: "length (addCount c hs es) = length es"
  by (induction c hs es rule: addCount.induct) (simp_all add: Let_def)

lemma addCount_nth:
  "distinct hs \<Longrightarrow> \<forall>h \<in> set hs. h < length es \<Longrightarrow> i < length es \<Longrightarrow>
   addCount c hs es ! i =
     (if i \<in> set hs
      then (es ! i)\<lparr>count := addNum (count (es ! i)) c, hidden := \<not> truthy (addNum (count (es ! i)) c)\<rparr>
      else es ! i)"
proof (induction c hs es rule: addCount.induct)
  case (1 c es)
  then show ?case by simp
next
  case (2 c h hs es)
  let ?es' = "es[h := (es ! h)\<lparr>count := addNum (count (es ! h)) c,
                               hidden := \<not> truthy (addNum (count (es ! h)) c)\<rparr>]"
  have step: "addCount c (h # hs) es = addCount c hs ?es'"
    by (simp add: Let_def)
  from "2.prems" have d: "distinct hs" and b: "\<forall>h \<in> set hs. h < length ?es'"
    and i: "i < length ?es'" and h: "h \<notin> set hs" "h < length es"
    by simp_all
  have "addCount c hs ?es' ! i =
     (if i \<in> set hs
      then (?es' ! i)\<lparr>count := addNum (count (?es' ! i)) c, hidden := \<not> truthy (addNum (count (?es' ! i)) c)\<rparr>
      else ?es' ! i)"
    using "2.IH" [OF refl d b i] .
  with h "2.prems"(3) show ?case
    unfolding step by (cases "i = h") auto
qed

lemma popClosed_cong:
  "\<forall>l \<in> set hs. depthAt es' l = depthAt es l \<Longrightarrow> popClosed es' hi hs = popClosed es hi hs"
  by (induction hs) auto

lemma popClosed_filter:
  "sorted_wrt (\<lambda>a b. gt (depthAt es a) (depthAt es b)) hs \<Longrightarrow>
   popClosed es hi hs = filter (\<lambda>l. gt hi (depthAt es l)) hs"
proof (induction hs)
  case Nil
  show ?case by simp
next
  case (Cons l hs)
  show ?case
  proof (cases "gt hi (depthAt es l)")
    case True
    with Cons.prems have "\<forall>l' \<in> set hs. gt hi (depthAt es l')"
      by (auto intro: gt_trans)
    then have "filter (\<lambda>l. gt hi (depthAt es l)) hs = hs"
      by (simp add: filter_id_conv)
    with True show ?thesis by simp
  next
    case False
    with Cons show ?thesis by simp
  qed
qed

lemma stillOpen_Suc:
  "stillOpen es i (Suc n) \<longleftrightarrow>
     stillOpen es i n \<and> (i < n \<longrightarrow> depth (es ! n) \<noteq> None \<longrightarrow> gt (depthAt es n) (depthAt es i))"
  by (auto simp: stillOpen_def less_Suc_eq)

lemma stillOpen_self: "stillOpen es n (Suc n)"
  by (simp add: stillOpen_def)

lemma openStack_sorted:
  "sorted_wrt (\<lambda>a b. gt (depthAt es a) (depthAt es b)) (openStack es n)"
proof -
  let ?xs = "filter (\<lambda>i. depth (es ! i) \<noteq> None \<and> stillOpen es i n) [0 ..< n]"
  have "sorted_wrt (<) ?xs"
    by (intro sorted_wrt_filter) simp
  moreover have "gt (depthAt es y) (depthAt es x)"
    if "x \<in> set ?xs" "y \<in> set ?xs" "x < y" for x y
    using that by (auto simp: stillOpen_def)
  ultimately have "sorted_wrt (\<lambda>x y. gt (depthAt es y) (depthAt es x)) ?xs"
    by (rule_tac sorted_wrt_mono_rel) auto
  then show ?thesis
    by (simp add: openStack_def sorted_wrt_rev)
qed

lemma openStack_Suc_heading:
  "depth (es ! n) \<noteq> None \<Longrightarrow>
   openStack es (Suc n) = n # filter (\<lambda>l. gt (depthAt es n) (depthAt es l)) (openStack es n)"
proof -
  assume h: "depth (es ! n) \<noteq> None"
  have "filter (\<lambda>i. depth (es ! i) \<noteq> None \<and> stillOpen es i (Suc n)) [0 ..< n]
      = filter (\<lambda>i. gt (depthAt es n) (depthAt es i))
          (filter (\<lambda>i. depth (es ! i) \<noteq> None \<and> stillOpen es i n) [0 ..< n])"
    using h by (auto simp: stillOpen_Suc intro: filter_cong)
  with h show ?thesis
    by (simp add: openStack_def stillOpen_self rev_filter)
qed

lemma openStack_Suc_block:
  "depth (es ! n) = None \<Longrightarrow> openStack es (Suc n) = openStack es n"
  by (simp add: openStack_def stillOpen_Suc)

lemma blocksUnder_Suc:
  "blocksUnder es (Suc n) i =
     blocksUnder es n i @ (if i < n \<and> depth (es ! n) = None \<and> stillOpen es i n then [n] else [])"
  by (auto simp: blocksUnder_def)

lemma set_openStack:
  "set (openStack es n) = {i. i < n \<and> depth (es ! i) \<noteq> None \<and> stillOpen es i n}"
  by (auto simp: openStack_def)

lemma distinct_openStack: "distinct (openStack es n)"
  by (simp add: openStack_def)


lemma depth_aggregated: "depth (aggregated es n i) = depth (es ! i)"
  by (simp add: aggregated_def)

lemma count_aggregated_block: "depth (es ! i) = None \<Longrightarrow> aggregated es n i = es ! i"
  by (simp add: aggregated_def)

lemma aggregated_Suc_same:
  assumes "\<not> (i < n \<and> depth (es ! n) = None \<and> stillOpen es i n)"
  shows "aggregated es (Suc n) i = aggregated es n i"
proof -
  from assms have "blocksUnder es (Suc n) i = blocksUnder es n i"
    unfolding blocksUnder_Suc by auto
  then show ?thesis
    by (simp add: aggregated_def countUnder_def)
qed

lemma aggregated_Suc_add:
  assumes "i < n" and "depth (es ! n) = None" and "stillOpen es i n" and "depth (es ! i) \<noteq> None"
  shows "aggregated es (Suc n) i =
     (aggregated es n i)\<lparr>count := addNum (count (aggregated es n i)) (count (es ! n)),
        hidden := \<not> truthy (addNum (count (aggregated es n i)) (count (es ! n)))\<rparr>"
proof -
  from assms(1-3) have "blocksUnder es (Suc n) i = blocksUnder es n i @ [n]"
    unfolding blocksUnder_Suc by simp
  with assms(4) show ?thesis
    by (auto simp: aggregated_def countUnder_def)
qed

lemma countStep_aggregated:
  assumes n: "n < length es"
  shows "countStep n (openStack es n, map (aggregated es n) [0 ..< length es])
      = (openStack es (Suc n), map (aggregated es (Suc n)) [0 ..< length es])"
proof (cases "depth (es ! n) = None")
  case False
  let ?cur = "map (aggregated es n) [0 ..< length es]"
  from n have dn: "depth (?cur ! n) = depth (es ! n)" "depthAt ?cur n = depthAt es n"
    by (simp_all add: depthAt_def depth_aggregated)
  have "\<forall>l \<in> set (openStack es n). depthAt ?cur l = depthAt es l"
    using n by (auto simp: set_openStack depthAt_def depth_aggregated)
  then have "popClosed ?cur (depthAt es n) (openStack es n)
      = popClosed es (depthAt es n) (openStack es n)"
    by (rule popClosed_cong)
  also have "\<dots> = filter (\<lambda>l. gt (depthAt es n) (depthAt es l)) (openStack es n)"
    by (rule popClosed_filter) (rule openStack_sorted)
  finally have "popClosed ?cur (depthAt es n) (openStack es n)
      = filter (\<lambda>l. gt (depthAt es n) (depthAt es l)) (openStack es n)" .
  moreover have "map (aggregated es (Suc n)) [0 ..< length es] = ?cur"
    using False by (simp add: aggregated_Suc_same)
  ultimately show ?thesis
    using False dn by (simp add: countStep_def openStack_Suc_heading)
next
  case True
  let ?cur = "map (aggregated es n) [0 ..< length es]"
  let ?hs = "openStack es n"
  from n True have cn: "depth (?cur ! n) = None" "count (?cur ! n) = count (es ! n)"
    by (simp_all add: aggregated_def)
  have bound: "\<forall>h \<in> set (rev ?hs). h < length ?cur"
    using n by (auto simp: set_openStack)
  have "addCount (count (es ! n)) (rev ?hs) ?cur = map (aggregated es (Suc n)) [0 ..< length es]"
  proof (rule nth_equalityI)
    show "length (addCount (count (es ! n)) (rev ?hs) ?cur)
        = length (map (aggregated es (Suc n)) [0 ..< length es])"
      by (simp add: addCount_length)
  next
    fix i
    assume "i < length (addCount (count (es ! n)) (rev ?hs) ?cur)"
    then have i: "i < length es" by (simp add: addCount_length)
    then have i': "i < length ?cur" by simp
    have d: "distinct (rev ?hs)" by (simp add: distinct_openStack)
    show "addCount (count (es ! n)) (rev ?hs) ?cur ! i
        = map (aggregated es (Suc n)) [0 ..< length es] ! i"
    proof (cases "i \<in> set ?hs")
      case True
      then have "i < n" "depth (es ! i) \<noteq> None" "stillOpen es i n"
        by (simp_all add: set_openStack)
      with \<open>depth (es ! n) = None\<close> True i show ?thesis
        unfolding addCount_nth [OF d bound i'] by (simp add: aggregated_Suc_add)
    next
      case False
      then have "\<not> (i < n \<and> depth (es ! n) = None \<and> stillOpen es i n) \<or> depth (es ! i) = None"
        by (auto simp: set_openStack)
      then have "aggregated es (Suc n) i = aggregated es n i"
        by (auto simp: aggregated_Suc_same count_aggregated_block)
      with False i show ?thesis
        unfolding addCount_nth [OF d bound i'] by simp
    qed
  qed
  with True cn show ?thesis
    by (simp add: countStep_def openStack_Suc_block)
qed

lemma fold_countStep:
  "n \<le> length es \<Longrightarrow>
   fold countStep [0 ..< n] ([], resetCounts es)
     = (openStack es n, map (aggregated es n) [0 ..< length es])"
proof (induction n)
  case 0
  have "resetCounts es = map (aggregated es 0) [0 ..< length es]"
    by (rule nth_equalityI)
       (auto simp: resetCounts_map aggregated_def countUnder_def blocksUnder_def)
  then show ?case by (simp add: openStack_def)
next
  case (Suc n)
  then show ?case by (simp add: countStep_aggregated)
qed

lemma countUpItems_aggregated:
  "countUpItems es = map (aggregated es (length es)) [0 ..< length es]"
  by (simp add: countUpItems_def fold_countStep)


lemma countUpItems_length: "length (countUpItems es) = length es"
  by (simp add: countUpItems_aggregated)

text \<open>
  The result of \<^verbatim>\<open>#countUpItems\<close> in closed form, for every sequence of children: the
  count of every heading is the sum of the counts of the blocks after it and before the
  next heading of equal or lesser depth, and its hidden attribute follows the count only
  when there is such a block.
\<close>

lemma countUpItems_nth:
  "i < length es \<Longrightarrow> countUpItems es ! i = aggregated es (length es) i"
  by (simp add: countUpItems_aggregated)

lemma countUpItems_heading_count:
  "i < length es \<Longrightarrow> depth (es ! i) \<noteq> None \<Longrightarrow>
   count (countUpItems es ! i) = countUnder es (length es) i"
  by (auto simp: countUpItems_nth aggregated_def)

lemma countUpItems_heading_hidden:
  "i < length es \<Longrightarrow> depth (es ! i) \<noteq> None \<Longrightarrow>
   hidden (countUpItems es ! i) =
     (if blocksUnder es (length es) i = [] then hidden (es ! i)
      else \<not> truthy (count (countUpItems es ! i)))"
  by (auto simp: countUpItems_nth aggregated_def)

text \<open>
  The example of the specification: headings of the depths 0, 1, 1, 0, each followed by a
  list block, with the counts 0, 3, 0, 2.
\<close>

lemma countUpItems_example:
  "map (\<lambda>e. (count e, hidden e))
     (countUpItems
        [\<lparr>isList = False, depth = Some (Num 0), count = NaN, hidden = False, style = None,
           offsetHeight = 0, children = []\<rparr>,
         \<lparr>isList = True, depth = None, count = Num 0, hidden = False, style = None,
           offsetHeight = 0, children = []\<rparr>,
         \<lparr>isList = False, depth = Some (Num 1), count = NaN, hidden = False, style = None,
           offsetHeight = 0, children = []\<rparr>,
         \<lparr>isList = True, depth = None, count = Num 3, hidden = False, style = None,
           offsetHeight = 0, children = []\<rparr>,
         \<lparr>isList = False, depth = Some (Num 1), count = NaN, hidden = False, style = None,
           offsetHeight = 0, children = []\<rparr>,
         \<lparr>isList = True, depth = None, count = Num 0, hidden = False, style = None,
           offsetHeight = 0, children = []\<rparr>,
         \<lparr>isList = False, depth = Some (Num 0), count = NaN, hidden = False, style = None,
           offsetHeight = 0, children = []\<rparr>,
         \<lparr>isList = True, depth = None, count = Num 2, hidden = False, style = None,
           offsetHeight = 0, children = []\<rparr>])
   = [(Num 3, False), (Num 0, False), (Num 3, False), (Num 3, False),
      (Num 0, True), (Num 0, False), (Num 2, False), (Num 2, False)]"
  by (simp add: countUpItems_def countStep_def depthAt_def upt_rec Let_def)

text \<open>
  Claim C2. After the aggregation the count of every heading is the sum of the counts of
  the list blocks after it and before the next heading of equal or lesser depth, and every
  heading is visible exactly when that count is not zero and hidden otherwise, also a
  heading that is closed with no list block after it. The code writes the hidden
  attribute of a heading only in the loop over the stack at a list block: of two headings
  of the depth 1 followed by one list block of three visible items, the first has the
  count zero and is still visible.
\<close>

theorem countUpItems_heading_without_block:
  "map (\<lambda>e. (count e, hidden e))
     (countUpItems
        [\<lparr>isList = False, depth = Some (Num 1), count = NaN, hidden = False, style = None,
           offsetHeight = 0, children = []\<rparr>,
         \<lparr>isList = False, depth = Some (Num 1), count = NaN, hidden = False, style = None,
           offsetHeight = 0, children = []\<rparr>,
         \<lparr>isList = True, depth = None, count = Num 3, hidden = False, style = None,
           offsetHeight = 0, children = []\<rparr>])
   = [(Num 0, False), (Num 3, False), (Num 3, False)]"
  by (simp add: countUpItems_def countStep_def depthAt_def upt_rec Let_def)

section \<open>The round trip through the URL\<close>

lemma urlSafe_marks: "urlSafe CHR ''.''" "urlSafe CHR '',''" "urlSafe CHR ''=''"
  by (simp_all add: urlSafe_def)

lemma urlSafe_no_amp: "urlSafe c \<Longrightarrow> c \<noteq> CHR ''&'' \<and> c \<noteq> CHR ''+'' \<and> c \<noteq> CHR ''%''"
  by (simp add: urlSafe_def)

lemma plainValue_urlSafe: "plainValue v \<Longrightarrow> c \<in> set v \<Longrightarrow> urlSafe c"
  by (simp add: plainValue_def)

lemma plainName_urlSafe: "plainName q \<Longrightarrow> c \<in> set q \<Longrightarrow> urlSafe c \<and> c \<noteq> CHR ''=''"
  by (simp add: plainName_def)

lemma urlSafe_no_break:
  "urlSafe c \<Longrightarrow> c \<notin> set [CHR ''#'', CHR 0x09, CHR 0x0A, CHR 0x0D]"
  by (auto simp: urlSafe_def)

lemma split_no_sep: "sep \<notin> set x \<Longrightarrow> split sep x = [x]"
  by (induction x) auto

lemma split_append_sep: "sep \<notin> set x \<Longrightarrow> split sep (x @ sep # r) = x # split sep r"
  by (induction x) auto

lemma split_join:
  "xs \<noteq> [] \<Longrightarrow> \<forall>x \<in> set xs. sep \<notin> set x \<Longrightarrow> split sep (join [sep] xs) = xs"
proof (induction "[sep]" xs rule: join.induct)
  case 1
  then show ?case by simp
next
  case (2 x)
  then show ?case by (simp add: split_no_sep)
next
  case (3 x y xs)
  then show ?case by (simp add: split_append_sep)
qed

lemma set_join: "set (join sep xs) \<subseteq> set sep \<union> (\<Union>x \<in> set xs. set x)"
  by (induction sep xs rule: join.induct) auto

lemma percentDecode_id: "CHR ''%'' \<notin> set s \<Longrightarrow> percentDecode s = s"
  by (induction s rule: percentDecode.induct) auto

lemma formDecode_id: "CHR ''+'' \<notin> set s \<Longrightarrow> CHR ''%'' \<notin> set s \<Longrightarrow> formDecode s = s"
proof -
  assume a: "CHR ''+'' \<notin> set s" and b: "CHR ''%'' \<notin> set s"
  from a have "map (\<lambda>c. if c = CHR ''+'' then CHR '' '' else c) s = s"
    by (induction s) auto
  with b show ?thesis by (simp add: formDecode_def percentDecode_id)
qed

lemma parsePair_plain:
  assumes "CHR ''='' \<notin> set q" "CHR ''+'' \<notin> set q" "CHR ''%'' \<notin> set q"
    "CHR ''+'' \<notin> set v" "CHR ''%'' \<notin> set v"
  shows "parsePair (q @ ''='' @ v) = (q, v)"
proof -
  from assms(1) have "takeWhile (\<lambda>c. c \<noteq> CHR ''='') (q @ CHR ''='' # v) = q"
    "dropWhile (\<lambda>c. c \<noteq> CHR ''='') (q @ CHR ''='' # v) = CHR ''='' # v"
    by (auto simp: takeWhile_tail dropWhile_append3)
  with assms(2-5) show ?thesis
    by (simp add: parsePair_def formDecode_id)
qed

lemma getCheckedVals_filter: "getCheckedVals cbs = map fst (filter snd cbs)"
  by (induction cbs rule: getCheckedVals.induct) auto

lemma recheck_distinct:
  "distinct (map fst cbs) \<Longrightarrow>
   filter (\<lambda>v. v \<in> set (getCheckedVals cbs)) (map fst cbs) = getCheckedVals cbs"
proof (induction cbs)
  case Nil
  show ?case by simp
next
  case (Cons cb cbs)
  obtain val c where cb: "cb = (val, c)" by (cases cb)
  from Cons.prems cb have fresh: "val \<notin> set (map fst cbs)" and d: "distinct (map fst cbs)"
    by simp_all
  have sub: "set (getCheckedVals cbs) \<subseteq> set (map fst cbs)"
    by (auto simp: getCheckedVals_filter)
  have "filter (\<lambda>v. v \<in> insert val (set (getCheckedVals cbs))) (map fst cbs)
      = filter (\<lambda>v. v \<in> set (getCheckedVals cbs)) (map fst cbs)"
    using fresh by (intro filter_cong) auto
  with Cons.IH [OF d] fresh sub cb show ?case
    by (cases c) auto
qed


lemma takeWhile_before:
  "b = [] \<or> \<not> P (hd b) \<Longrightarrow> takeWhile P (a @ b) = takeWhile P a"
  by (induction a) (auto simp: takeWhile_eq_Nil_iff)

lemma join_not_Nil: "ps \<noteq> [] \<Longrightarrow> hd ps \<noteq> [] \<Longrightarrow> join sep ps \<noteq> []"
  by (induction sep ps rule: join.induct) auto

lemma filter_hash:
  "h = [] \<or> hd h = CHR ''#'' \<Longrightarrow>
   filter (\<lambda>c. c \<notin> set [CHR 0x09, CHR 0x0A, CHR 0x0D]) h = [] \<or>
   hd (filter (\<lambda>c. c \<notin> set [CHR 0x09, CHR 0x0A, CHR 0x0D]) h) = CHR ''#''"
  by (cases h) auto

lemma searchOf_query:
  assumes body: "\<forall>c \<in> set body. c \<notin> set [CHR ''#'', CHR 0x09, CHR 0x0A, CHR 0x0D]"
    and ne: "body \<noteq> []"
    and h: "h = [] \<or> hd h = CHR ''#''"
  shows "searchOf (''?'' @ body @ h) = ''?'' @ body"
proof -
  let ?P = "\<lambda>c. c \<notin> set [CHR 0x09, CHR 0x0A, CHR 0x0D]"
  let ?h = "filter ?P h"
  from body have fb: "filter ?P body = body"
    by (auto simp: filter_id_conv)
  have input: "filter ?P (''?'' @ body @ h) = (CHR ''?'' # body) @ ?h"
    using fb by simp
  from filter_hash [OF h] have "?h = [] \<or> \<not> (\<lambda>c. c \<noteq> CHR ''#'') (hd ?h)"
    by auto
  then have "takeWhile (\<lambda>c. c \<noteq> CHR ''#'') ((CHR ''?'' # body) @ ?h)
      = takeWhile (\<lambda>c. c \<noteq> CHR ''#'') (CHR ''?'' # body)"
    by (rule takeWhile_before)
  also from body have "\<dots> = CHR ''?'' # body"
    by auto
  finally have "takeWhile (\<lambda>c. c \<noteq> CHR ''#'') (filter ?P (''?'' @ body @ h)) = CHR ''?'' # body"
    unfolding input .
  with ne show ?thesis
    unfolding searchOf_def Let_def by (cases body) auto
qed

lemma searchOf_path:
  assumes path: "CHR ''?'' \<notin> set path" and h: "h = [] \<or> hd h = CHR ''#''"
  shows "searchOf (path @ h) = []"
proof -
  let ?P = "\<lambda>c. c \<notin> set [CHR 0x09, CHR 0x0A, CHR 0x0D]"
  let ?h = "filter ?P h"
  from filter_hash [OF h] have "?h = [] \<or> \<not> (\<lambda>c. c \<noteq> CHR ''#'') (hd ?h)"
    by auto
  then have "takeWhile (\<lambda>c. c \<noteq> CHR ''#'') (filter ?P path @ ?h)
      = takeWhile (\<lambda>c. c \<noteq> CHR ''#'') (filter ?P path)"
    by (rule takeWhile_before)
  moreover have "CHR ''?'' \<notin> set (takeWhile (\<lambda>c. c \<noteq> CHR ''#'') (filter ?P path))"
    using path by (auto dest: set_takeWhileD)
  ultimately have "dropWhile (\<lambda>c. c \<noteq> CHR ''?'')
      (takeWhile (\<lambda>c. c \<noteq> CHR ''#'') (filter ?P (path @ h))) = []"
    by auto
  then show ?thesis
    unfolding searchOf_def Let_def by simp
qed

lemma URLSearchParams_pairs:
  assumes "ps \<noteq> []" and "\<forall>p \<in> set ps. p \<noteq> [] \<and> CHR ''&'' \<notin> set p"
  shows "URLSearchParams (''?'' @ join ''&'' ps) = map parsePair ps"
proof -
  from assms have "split CHR ''&'' (join ''&'' ps) = ps"
    by (intro split_join) auto
  moreover from assms(2) have "filter (\<lambda>sq. sq \<noteq> []) ps = ps"
    by (auto simp: filter_id_conv)
  ultimately show ?thesis
    by (simp add: URLSearchParams_def)
qed

lemma URLSearchParams_empty: "URLSearchParams [] = []"
  by (simp add: URLSearchParams_def)


lemma setUrlParamsLoop_encodable:
  "\<forall>e \<in> set kvs. encodable e \<Longrightarrow> setUrlParamsLoop kvs ps = ps @ map queryPair kvs"
  by (induction kvs ps rule: setUrlParamsLoop.induct) auto

lemma urlSafe_queryValue:
  assumes "encodable e" and "c \<in> set (queryValue e)"
  shows "urlSafe c"
proof -
  obtain key oa vs cls qvar where e: "e = (key, oa, vs, cls, qvar)"
    by (cases e)
  from assms(2) e have "c \<in> set (rs oa) \<or> c \<in> set (join '','' vs)"
    by auto
  then have "c = CHR ''.'' \<or> c = CHR '','' \<or> (\<exists>v \<in> set vs. c \<in> set v)"
    using set_join [of "'',''" vs] by (cases oa) auto
  moreover from assms(1) e have "\<forall>v \<in> set vs. plainValue v"
    by simp
  ultimately show ?thesis
    using urlSafe_marks plainValue_urlSafe by blast
qed

lemma queryPair_split:
  "queryPair e = fst (queryEntry e) @ ''='' @ queryValue e"
  "snd (queryEntry e) = queryValue e"
  by (cases e; simp)+

lemma plainName_queryEntry: "encodable e \<Longrightarrow> plainName (fst (queryEntry e))"
  by (cases e) simp

lemma parsePair_queryPair:
  assumes "encodable e"
  shows "parsePair (queryPair e) = queryEntry e"
proof -
  let ?q = "fst (queryEntry e)" and ?v = "queryValue e"
  from plainName_queryEntry [OF assms]
  have q: "CHR ''='' \<notin> set ?q" "CHR ''+'' \<notin> set ?q" "CHR ''%'' \<notin> set ?q"
    using plainName_urlSafe urlSafe_no_amp by blast+
  from urlSafe_queryValue [OF assms]
  have v: "CHR ''+'' \<notin> set ?v" "CHR ''%'' \<notin> set ?v"
    using urlSafe_no_amp by blast+
  from parsePair_plain [OF q v] show ?thesis
    by (simp add: queryPair_split prod_eq_iff)
qed

lemma urlSafe_queryPair:
  assumes "encodable e" and "c \<in> set (queryPair e)"
  shows "urlSafe c"
proof -
  from assms(2) have "c \<in> set (fst (queryEntry e)) \<or> c = CHR ''='' \<or> c \<in> set (queryValue e)"
    by (auto simp: queryPair_split)
  with plainName_queryEntry [OF assms(1)] urlSafe_queryValue [OF assms(1)] show ?thesis
    using plainName_urlSafe urlSafe_marks(3) by blast
qed

lemma queryPair_not_Nil: "queryPair e \<noteq> []"
  by (cases e) simp

text \<open>
  Reading the query string of the URL that the encoder emits gives back, for every
  criterion, its query variable with the marker and the joined values.
\<close>

lemma decode_encode_query:
  assumes kv: "\<forall>e \<in> set kvs. encodable e"
    and path: "CHR ''?'' \<notin> set (origin loc @ pathname loc)"
    and h: "hash loc = [] \<or> hd (hash loc) = CHR ''#''"
  shows "URLSearchParams (searchOf (setUrlParams loc kvs)) = map queryEntry kvs"
proof (cases "kvs = []")
  case True
  then have "setUrlParams loc kvs = (origin loc @ pathname loc) @ hash loc"
    by (simp add: setUrlParams_def)
  with searchOf_path [OF path h] True show ?thesis
    by (simp add: URLSearchParams_empty)
next
  case False
  let ?ps = "map queryPair kvs"
  from kv have ps: "setUrlParamsLoop kvs [] = ?ps"
    by (simp add: setUrlParamsLoop_encodable)
  from False have ne: "?ps \<noteq> []" by simp
  have safe: "urlSafe c" if "p \<in> set ?ps" "c \<in> set p" for p c
    using that kv urlSafe_queryPair by auto
  have pne: "\<forall>p \<in> set ?ps. p \<noteq> [] \<and> CHR ''&'' \<notin> set p"
  proof
    fix p
    assume p: "p \<in> set ?ps"
    then have "p \<noteq> []" by (auto simp: queryPair_not_Nil)
    moreover from safe [OF p] have "CHR ''&'' \<notin> set p"
      using urlSafe_no_amp by blast
    ultimately show "p \<noteq> [] \<and> CHR ''&'' \<notin> set p" ..
  qed
  from ne pne have body_ne: "join ''&'' ?ps \<noteq> []"
    by (intro join_not_Nil) (auto simp: hd_map queryPair_not_Nil)
  have body: "\<forall>c \<in> set (join ''&'' ?ps). c \<notin> set [CHR ''#'', CHR 0x09, CHR 0x0A, CHR 0x0D]"
  proof
    fix c
    assume "c \<in> set (join ''&'' ?ps)"
    with set_join [of "''&''" ?ps] have "c = CHR ''&'' \<or> (\<exists>p \<in> set ?ps. c \<in> set p)"
      by auto
    then show "c \<notin> set [CHR ''#'', CHR 0x09, CHR 0x0A, CHR 0x0D]"
    proof
      assume "c = CHR ''&''"
      then show ?thesis by simp
    next
      assume "\<exists>p \<in> set ?ps. c \<in> set p"
      with safe have "urlSafe c" by blast
      then show ?thesis by (rule urlSafe_no_break)
    qed
  qed
  from ps ne have "setUrlParams loc kvs = ''?'' @ join ''&'' ?ps @ hash loc"
    by (simp add: setUrlParams_def)
  with searchOf_query [OF body body_ne h]
  have "searchOf (setUrlParams loc kvs) = ''?'' @ join ''&'' ?ps"
    by simp
  with URLSearchParams_pairs [OF ne pne]
  have "URLSearchParams (searchOf (setUrlParams loc kvs)) = map parsePair ?ps"
    by simp
  also from kv have "\<dots> = map queryEntry kvs"
    by (simp add: parsePair_queryPair)
  finally show ?thesis .
qed


lemma getCheckedVals_recheck:
  "getCheckedVals (map (\<lambda>(val, checked). (val, val \<in> S)) cbs)
     = filter (\<lambda>v. v \<in> S) (map fst cbs)"
  by (induction cbs) auto

lemma not_startsWith_dot: "CHR ''.'' \<notin> set v \<Longrightarrow> \<not> startsWith v ''.''"
  by (cases v) (auto simp: startsWith_def)

lemma plain_join:
  assumes "\<forall>v \<in> set vs. plainValue v"
  shows "CHR ''.'' \<notin> set (join '','' vs)"
proof
  assume "CHR ''.'' \<in> set (join '','' vs)"
  with set_join [of "'',''" vs] have "\<exists>v \<in> set vs. CHR ''.'' \<in> set v"
    by auto
  with assms show False by (auto simp: plainValue_def)
qed

lemma trimmed_pieces:
  assumes "vs \<noteq> []" and "\<forall>v \<in> set vs. plainValue v"
  shows "map trim (split CHR '','' (join '','' vs)) = vs"
proof -
  from assms have "split CHR '','' (join '','' vs) = vs"
    by (intro split_join) (auto simp: plainValue_def)
  moreover from assms(2) have "map trim vs = vs"
    by (induction vs) (auto simp: plainValue_def)
  ultimately show ?thesis by simp
qed

lemma entry_round_trip:
  assumes enc: "\<forall>e \<in> set (entryOf (key, cls, qvar, es)). encodable e"
    and grp: "distinctValues es"
    and same: "unset es0 = unset es"
    and fresh: "entryOf (key, cls, qvar, es0) = []"
    and get: "uspGet usp qvar = map_of (map queryEntry (entryOf (key, cls, qvar, es))) qvar"
  shows "entryOf (applyUrlEntry usp (key, cls, qvar, es0)) = entryOf (key, cls, qvar, es)"
proof (cases es)
  case (Select sel)
  with same obtain sel0 where es0: "es0 = Select sel0"
    by (cases es0) auto
  show ?thesis
  proof (cases "sel = []")
    case True
    with Select get fresh es0 show ?thesis by simp
  next
    case False
    with Select enc have "plainValue sel"
      by simp
    then have "CHR ''.'' \<notin> set sel"
      by (auto simp: plainValue_def)
    then have "\<not> startsWith sel ''.''"
      by (rule not_startsWith_dot)
    with Select False get es0 show ?thesis
      by (simp add: applyUrlValue_def)
  qed
next
  case (Checkbox ena rel cbs)
  with same obtain ena0 rel0 cbs0 where es0: "es0 = Checkbox ena0 rel0 cbs0"
    by (cases es0) auto
  from same Checkbox es0 have shape: "ena0 = None \<longleftrightarrow> ena = None" "rel0 = None \<longleftrightarrow> rel = None"
    and flat: "map (\<lambda>cb. (fst cb, False)) cbs0 = map (\<lambda>cb. (fst cb, False)) cbs"
    by auto
  from flat have "map fst (map (\<lambda>cb. (fst cb, False)) cbs0)
      = map fst (map (\<lambda>cb. (fst cb, False)) cbs)"
    by simp
  then have vals0: "map fst cbs0 = map fst cbs"
    by (simp add: comp_def)
  show ?thesis
  proof (cases "ena = Some True \<and> rel \<noteq> None")
    case False
    with Checkbox get fresh es0 show ?thesis by auto
  next
    case True
    then obtain r where ena: "ena = Some True" and rel: "rel = Some r" by auto
    let ?vs = "getCheckedVals cbs"
    from enc Checkbox ena rel have ne: "?vs \<noteq> []" and plain: "\<forall>v \<in> set ?vs. plainValue v"
      by simp_all
    from grp Checkbox have d: "distinct (map fst cbs)" by simp
    from shape ena rel obtain e0 r0 where e0: "ena0 = Some e0" "rel0 = Some r0"
      by auto
    from get Checkbox ena rel
    have v0: "uspGet usp qvar = Some ((if r then ''.'' else []) @ join '','' ?vs)"
      by simp
    have dot: "\<not> startsWith (join '','' ?vs) ''.''"
      using plain_join [OF plain] by (rule not_startsWith_dot)
    have "set (map trim (split CHR '','' (join '','' ?vs))) = set ?vs"
      by (simp only: trimmed_pieces [OF ne plain])
    then have pieces: "trim ` set (split CHR '','' (join '','' ?vs)) = set ?vs"
      by simp
    have "applyUrlValue ((if r then ''.'' else []) @ join '','' ?vs) es0
        = Checkbox (Some True) (Some r)
            (map (\<lambda>(val, checked). (val, val \<in> set ?vs)) cbs0)"
      using dot e0 es0 pieces
      by (cases r) (simp_all add: applyUrlValue_def startsWith_def substring_def)
    moreover have "getCheckedVals (map (\<lambda>(val, checked). (val, val \<in> set ?vs)) cbs0) = ?vs"
      using recheck_distinct [OF d] by (simp add: getCheckedVals_recheck vals0)
    ultimately show ?thesis
      using v0 Checkbox ena rel by simp
  qed
qed


lemma qvar_entryOf:
  "(q, v) \<in> set (map queryEntry (entryOf u)) \<Longrightarrow> q = fst (snd (snd u))"
  by (cases u rule: entryOf.cases) (auto split: if_splits)

lemma uspGet_entry:
  assumes "distinct (map (\<lambda>u. fst (snd (snd u))) uis)" and "u \<in> set uis"
  shows "uspGet (map queryEntry (concat (map entryOf uis))) (fst (snd (snd u)))
      = map_of (map queryEntry (entryOf u)) (fst (snd (snd u)))"
  using assms
proof (induction uis)
  case Nil
  then show ?case by simp
next
  case (Cons u' uis)
  let ?q = "fst (snd (snd u))"
  let ?rest = "map queryEntry (concat (map entryOf uis))"
  have split: "uspGet (map queryEntry (concat (map entryOf (u' # uis)))) ?q
      = (case map_of (map queryEntry (entryOf u')) ?q of
           None \<Rightarrow> map_of ?rest ?q | Some v \<Rightarrow> Some v)"
    by (simp add: uspGet_def map_add_def)
  show ?case
  proof (cases "u = u'")
    case True
    have "map_of ?rest ?q = None"
    proof (rule ccontr)
      assume "map_of ?rest ?q \<noteq> None"
      then obtain v where "(?q, v) \<in> set ?rest"
        by (auto dest: map_of_SomeD)
      then obtain e where "e \<in> set (concat (map entryOf uis))" "queryEntry e = (?q, v)"
        by (metis (no_types, lifting) image_iff set_map)
      then obtain w where w: "w \<in> set uis" "e \<in> set (entryOf w)" "queryEntry e = (?q, v)"
        by auto
      then have "(?q, v) \<in> set (map queryEntry (entryOf w))"
        by (metis image_eqI set_map)
      with qvar_entryOf w(1) have "w \<in> set uis" "fst (snd (snd w)) = ?q"
        by auto
      then have "?q \<in> (\<lambda>u. fst (snd (snd u))) ` set uis"
        by (metis image_eqI)
      moreover from Cons.prems(1) True have "?q \<notin> (\<lambda>u. fst (snd (snd u))) ` set uis"
        by simp
      ultimately show False by contradiction
    qed
    with True show ?thesis
      unfolding split by (auto split: option.splits)
  next
    case False
    with Cons.prems have u: "u \<in> set uis" and d: "distinct (map (\<lambda>u. fst (snd (snd u))) uis)"
      and ne: "fst (snd (snd u')) \<noteq> ?q"
      by auto
    have "map_of (map queryEntry (entryOf u')) ?q = None"
    proof (rule ccontr)
      assume "map_of (map queryEntry (entryOf u')) ?q \<noteq> None"
      then obtain v where "(?q, v) \<in> set (map queryEntry (entryOf u'))"
        by (auto dest: map_of_SomeD)
      with qvar_entryOf ne show False by metis
    qed
    with Cons.IH [OF d u] show ?thesis
      unfolding split by (simp add: uspGet_def)
  qed
qed

text \<open>
  Claim C5, amended. Take controls in which no two keys share a query variable, the
  inputs of every value group have values that differ from each other, and every key of
  the criterion set read from them has at least one selected value, a plain query
  variable and plain values: no comma, no marker \<^verbatim>\<open>.\<close>, none of \<^verbatim>\<open>&\<close>, \<^verbatim>\<open>+\<close>,
  \<^verbatim>\<open>%\<close> and \<^verbatim>\<open>#\<close>, no control character, and no white space at the ends. Encode the
  criterion set, and let a page with the same controls, none of them set, read the query
  string of the emitted URL into its controls. The criterion set read from these controls
  is the original one: the same keys in the same order, each with the same mode and the
  same values in the same order.
\<close>

theorem url_round_trip:
  assumes keys: "distinct (map fst uis)"
    and qvars: "distinct (map (\<lambda>u. fst (snd (snd u))) uis)"
    and enc: "\<forall>e \<in> set (getKeyToVals uis). encodable e"
    and grp: "\<forall>(key, cls, qvar, es) \<in> set uis. distinctValues es"
    and same: "sameControls uis0 uis"
    and fresh: "getKeyToVals uis0 = []"
    and path: "CHR ''?'' \<notin> set (origin loc @ pathname loc)"
    and h: "hash loc = [] \<or> hd (hash loc) = CHR ''#''"
  shows "getKeyToVals
           (getStateFromUrlParams
              (page\<lparr>search := searchOf (setUrlParams loc (getKeyToVals uis))\<rparr>) uis0)
         = getKeyToVals uis"
proof -
  let ?kvs = "getKeyToVals uis"
  let ?usp = "map queryEntry ?kvs"
  have kvs: "?kvs = concat (map entryOf uis)"
    using keys by (rule getKeyToVals_entries)
  from same have all2: "list_all2 (\<lambda>(key0, cls0, qvar0, es0) (key, cls, qvar, es).
        key0 = key \<and> cls0 = cls \<and> qvar0 = qvar \<and> unset es0 = unset es) uis0 uis"
    by (simp add: sameControls_def)
  then have len: "length uis0 = length uis"
    by (rule list_all2_lengthD)
  have keys0: "map fst uis0 = map fst uis"
  proof (rule nth_equalityI)
    show "length (map fst uis0) = length (map fst uis)" using len by simp
  next
    fix i
    assume "i < length (map fst uis0)"
    then have i: "i < length uis0" by simp
    with all2 have "(\<lambda>(key0, cls0, qvar0, es0) (key, cls, qvar, es).
        key0 = key \<and> cls0 = cls \<and> qvar0 = qvar \<and> unset es0 = unset es) (uis0 ! i) (uis ! i)"
      by (simp add: list_all2_conv_all_nth)
    then have "fst (uis0 ! i) = fst (uis ! i)"
      by (cases "uis0 ! i"; cases "uis ! i") simp
    with i len show "map fst uis0 ! i = map fst uis ! i"
      by simp
  qed
  with keys have d0: "distinct (map fst uis0)" by simp
  from d0 fresh have fresh0: "\<forall>u0 \<in> set uis0. entryOf u0 = []"
    by (simp add: getKeyToVals_entries)
  have "URLSearchParams (searchOf (setUrlParams loc ?kvs)) = ?usp"
    using enc path h by (rule decode_encode_query)
  then have read: "getStateFromUrlParams
      (page\<lparr>search := searchOf (setUrlParams loc ?kvs)\<rparr>) uis0 = map (applyUrlEntry ?usp) uis0"
    by (simp add: getStateFromUrlParams_def getStateFromUrlParamsLoop_map)
  have d1: "distinct (map fst (map (applyUrlEntry ?usp) uis0))"
    using d0 by (simp add: comp_def fst_applyUrlEntry)
  have entries: "map entryOf (map (applyUrlEntry ?usp) uis0) = map entryOf uis"
  proof (rule nth_equalityI)
    show "length (map entryOf (map (applyUrlEntry ?usp) uis0)) = length (map entryOf uis)"
      using len by simp
  next
    fix i
    assume "i < length (map entryOf (map (applyUrlEntry ?usp) uis0))"
    then have i0: "i < length uis0" and i: "i < length uis"
      using len by simp_all
    obtain key cls qvar es where u: "uis ! i = (key, cls, qvar, es)"
      by (cases "uis ! i")
    obtain key0 cls0 qvar0 es0 where u0: "uis0 ! i = (key0, cls0, qvar0, es0)"
      by (cases "uis0 ! i")
    from all2 i0 u u0 have eq: "key0 = key" "cls0 = cls" "qvar0 = qvar" "unset es0 = unset es"
      by (auto simp: list_all2_conv_all_nth)
    from i u have mem: "(key, cls, qvar, es) \<in> set uis"
      by (metis nth_mem)
    from i0 u0 eq have mem0: "(key, cls, qvar, es0) \<in> set uis0"
      by (metis nth_mem)
    have e1: "\<forall>e \<in> set (entryOf (key, cls, qvar, es)). encodable e"
      using enc mem unfolding kvs by auto
    have e2: "distinctValues es"
      using grp mem by auto
    have e3: "entryOf (key, cls, qvar, es0) = []"
      using fresh0 mem0 by blast
    have e4: "uspGet ?usp qvar = map_of (map queryEntry (entryOf (key, cls, qvar, es))) qvar"
      using uspGet_entry [OF qvars mem] unfolding kvs by simp
    have "entryOf (applyUrlEntry ?usp (key, cls, qvar, es0)) = entryOf (key, cls, qvar, es)"
      using e1 e2 eq(4) e3 e4 by (rule entry_round_trip)
    with i0 i u u0 eq show "map entryOf (map (applyUrlEntry ?usp) uis0) ! i = map entryOf uis ! i"
      by simp
  qed
  have "getKeyToVals (map (applyUrlEntry ?usp) uis0)
      = concat (map entryOf (map (applyUrlEntry ?usp) uis0))"
    using d1 by (rule getKeyToVals_entries)
  also have "\<dots> = concat (map entryOf uis)"
    by (simp only: entries)
  also have "\<dots> = ?kvs"
    by (simp only: kvs)
  finally show ?thesis
    by (simp only: read)
qed


text \<open>
  Claim C5, as stated, asks of the values only that they have no comma and no marker. The
  value \<^verbatim>\<open>' a'\<close> of a checked input has neither; the decoder trims the pieces of the
  value it reads, finds no input with the value \<^verbatim>\<open>'a'\<close>, and the key comes back with no
  value.
\<close>

theorem url_round_trip_counterexample:
  "getKeyToVals [(''tag'', ''tag-%value%'', ''tag'',
       Checkbox (Some True) (Some False) [('' a'', True)])]
     = [(''tag'', Or, ['' a''], ''tag-%value%'', ''tag'')]
   \<and> setUrlParams \<lparr>origin = ''https://example.org'', pathname = ''/list'', search = [], hash = []\<rparr>
       [(''tag'', Or, ['' a''], ''tag-%value%'', ''tag'')] = ''?tag= a''
   \<and> getKeyToVals
       (getStateFromUrlParams
          \<lparr>origin = ''https://example.org'', pathname = ''/list'',
           search = searchOf ''?tag= a'', hash = []\<rparr>
          [(''tag'', ''tag-%value%'', ''tag'',
            Checkbox (Some False) (Some False) [('' a'', False)])])
     = [(''tag'', Or, [], ''tag-%value%'', ''tag'')]"
  by (simp add: getKeyToVals_def setUrlParams_def getStateFromUrlParams_def searchOf_def
      URLSearchParams_def parsePair_def formDecode_def uspHas_def uspGet_def
      applyUrlValue_def startsWith_def substring_def trim_def isWhiteSpace_def)

text \<open>
  The value \<^verbatim>\<open>c++\<close> of a selector has no comma and no marker either; it is emitted as it
  is, and the plus signs are read back as spaces.
\<close>

lemma url_round_trip_plus:
  "setUrlParams \<lparr>origin = ''https://example.org'', pathname = ''/list'', search = [], hash = []\<rparr>
       (getKeyToVals [(''lang'', ''lang-%value%'', ''lang'', Select ''c++'')]) = ''?lang=c++''
   \<and> getKeyToVals
       (getStateFromUrlParams
          \<lparr>origin = ''https://example.org'', pathname = ''/list'',
           search = searchOf ''?lang=c++'', hash = []\<rparr>
          [(''lang'', ''lang-%value%'', ''lang'', Select [])])
     = [(''lang'', Or, [''c  ''], ''lang-%value%'', ''lang'')]"
  by (simp add: getKeyToVals_def setUrlParams_def getStateFromUrlParams_def searchOf_def
      URLSearchParams_def parsePair_def formDecode_def uspHas_def uspGet_def
      applyUrlValue_def startsWith_def substring_def)

text \<open>
  The scenario of the specification: the colour red, and the sizes S and M in the mode
  AND, read back by a page with the same controls unset.
\<close>

theorem url_round_trip_witness:
  "getKeyToVals
     (getStateFromUrlParams
        (\<lparr>origin = ''https://example.org'', pathname = ''/list'', search = [], hash = ''#top''\<rparr>
         \<lparr>search := searchOf
            (setUrlParams
               \<lparr>origin = ''https://example.org'', pathname = ''/list'', search = [], hash = ''#top''\<rparr>
               (getKeyToVals
                  [(''color'', ''color-%value%'', ''color'', Select ''red''),
                   (''size'', ''size-%value%'', ''size'',
                    Checkbox (Some True) (Some True) [(''S'', True), (''M'', True), (''L'', False)])]))\<rparr>)
        [(''color'', ''color-%value%'', ''color'', Select []),
         (''size'', ''size-%value%'', ''size'',
          Checkbox (Some False) (Some False) [(''S'', False), (''M'', False), (''L'', False)])])
   = [(''color'', Or, [''red''], ''color-%value%'', ''color''),
      (''size'', And, [''S'', ''M''], ''size-%value%'', ''size'')]"
proof -
  let ?uis = "[(''color'', ''color-%value%'', ''color'', Select ''red''),
               (''size'', ''size-%value%'', ''size'',
                Checkbox (Some True) (Some True) [(''S'', True), (''M'', True), (''L'', False)])]"
  let ?page = "[(''color'', ''color-%value%'', ''color'', Select []),
                (''size'', ''size-%value%'', ''size'',
                 Checkbox (Some False) (Some False) [(''S'', False), (''M'', False), (''L'', False)])]"
  let ?loc = "\<lparr>origin = ''https://example.org'', pathname = ''/list'', search = [], hash = ''#top''\<rparr>"
  have kvs: "getKeyToVals ?uis
      = [(''color'', Or, [''red''], ''color-%value%'', ''color''),
         (''size'', And, [''S'', ''M''], ''size-%value%'', ''size'')]"
    by (simp add: getKeyToVals_def)
  have h1: "distinct (map fst ?uis)" by simp
  have h2: "distinct (map (\<lambda>u. fst (snd (snd u))) ?uis)" by simp
  have h3: "\<forall>e \<in> set (getKeyToVals ?uis). encodable e"
    unfolding kvs
    by (simp add: plainName_def plainValue_def urlSafe_def trim_def isWhiteSpace_def)
  have h4: "\<forall>(key, cls, qvar, es) \<in> set ?uis. distinctValues es" by simp
  have h5: "sameControls ?page ?uis" by (simp add: sameControls_def)
  have h6: "getKeyToVals ?page = []" by (simp add: getKeyToVals_def)
  have h7: "CHR ''?'' \<notin> set (origin ?loc @ pathname ?loc)" by simp
  have h8: "hash ?loc = [] \<or> hd (hash ?loc) = CHR ''#''" by simp
  from url_round_trip [OF h1 h2 h3 h4 h5 h6 h7 h8, of ?loc] show ?thesis
    by (simp only: kvs)
qed

end
